theory Spec2Isabelle
  imports Main "HOL-Library.FSet" "HOL-Library.AList"
begin

section \<open>The RPC manager of services/rpcManager.js\<close>

text \<open>
  The development embeds the class \<open>RPCManager\<close>: endpoint selection (\<open>getBestRPC\<close>),
  the per-url rate counter (\<open>canMakeRequest\<close>, \<open>updateRequestCounter\<close>), the retry
  executor (\<open>executeWithRetry\<close>, \<open>handleRateLimit\<close>, \<open>resetRPCErrors\<close>), the health
  monitor (\<open>performHealthCheck\<close>) and \<open>removeRPC\<close>.

  Conventions of the embedding.
  \<^item> JavaScript numbers that the class computes with are integers of magnitude at
    most 2^53, which doubles hold exactly; they are \<open>int\<close>. The one product with a
    fraction, \<open>maxRequestsPerSecond * 0.8\<close>, is computed as the double product is. A
    value that can be \<open>NaN\<close> (the result of \<open>parseInt\<close>) is an \<open>int option\<close>, \<open>None\<close>
    standing for \<open>NaN\<close>.
  \<^item> A connection object is an opaque handle compared by identity; it is a \<open>nat\<close>.
  \<^item> \<open>this.failedRPCs\<close> (a \<open>Set\<close> of urls) is a finite set, \<open>this.requestCounters\<close>
    (a \<open>Map\<close>) a partial function. \<open>this.connections\<close> and \<open>this.rpcConfigs\<close> are plain
    objects: their own properties are an association list in the order of
    \<open>Object.entries\<close>, and a lookup by key also finds the properties that every object
    inherits (\<open>getProperty\<close>).
  \<^item> \<open>Date.now()\<close> is an input of the program: the k-th reading of the clock is
    \<open>clk k\<close>, and the field \<open>ticks\<close> counts the readings taken so far. Nothing is assumed
    about the readings.
  \<^item> An exception is the left summand of a result; the manager's state is returned
    beside it, since a call that throws may already have changed the state.
  \<^item> The code runs on one thread. A call of \<open>executeWithRetry\<close> is suspended at each
    of its \<open>await\<close>s, and what the rest of the program does to the manager meanwhile
    is an input of the run (\<open>interference\<close>). The synchronous methods, and one pass of the health
    monitor, are embedded as they run by themselves.
  \<^item> A thrown value is an error object with optional \<open>code\<close>, \<open>message\<close> (a string)
    and \<open>headers\<close>.
  \<^item> \<open>initialize\<close>, \<open>addRPC\<close>, \<open>getStatus\<close>, \<open>getChainStats\<close> and the unused map
    \<open>rateLimits\<close> are not embedded; the states \<open>initialize\<close> produces appear among the
    scenarios.
\<close>

subsection \<open>Errors\<close>

datatype jsval = Undefined | Number int | Str string

record jserror =
  code :: jsval
  message :: "string option"
  headers :: "(string \<times> string) list option"

text \<open>\<open>new Error(msg)\<close>: a message, no code, no headers.\<close>

definition mkError :: "string \<Rightarrow> jserror" where
  "mkError msg = \<lparr>code = Undefined, message = Some msg, headers = None\<rparr>"

text \<open>\<open>String.prototype.includes\<close>: the argument occurs as a contiguous substring.\<close>

fun str_includes :: "string \<Rightarrow> string \<Rightarrow> bool" where
  "str_includes [] sub = (sub = [])"
| "str_includes (c # cs) sub = (take (length sub) (c # cs) = sub \<or> str_includes cs sub)"

text \<open>\<open>error.message?.includes(sub)\<close>: \<open>undefined\<close>, hence falsy, without a message.\<close>

definition msgIncludes :: "jserror \<Rightarrow> string \<Rightarrow> bool" where
  "msgIncludes e sub = (case message e of None \<Rightarrow> False | Some m \<Rightarrow> str_includes m sub)"

subsection \<open>Objects\<close>

text \<open>
  \<open>this.connections\<close> and \<open>this.rpcConfigs\<close> are created by the object literal
  \<open>{}\<close>, so their prototype is \<open>Object.prototype\<close>. A lookup \<open>obj[key]\<close> yields the own
  property of that name when there is one, else the property of that name inherited
  from \<open>Object.prototype\<close> when there is one, else \<open>undefined\<close>. The inherited
  properties are functions, and for \<open>__proto__\<close> the prototype object itself: truthy
  values that have no method \<open>filter\<close> or \<open>find\<close>. Own properties are created by
  assignment under a chain name, which never creates one named \<open>__proto__\<close>.
\<close>

definition inheritedKeys :: "string list" where
  "inheritedKeys = [''constructor'', ''__defineGetter__'', ''__defineSetter__'',
     ''hasOwnProperty'', ''__lookupGetter__'', ''__lookupSetter__'', ''isPrototypeOf'',
     ''propertyIsEnumerable'', ''toString'', ''valueOf'', ''__proto__'', ''toLocaleString'']"

datatype 'a property = Own 'a | Inherited | Missing

definition getProperty :: "(string \<times> 'a) list \<Rightarrow> string \<Rightarrow> 'a property" where
  "getProperty obj key =
     (case map_of obj key of
        Some v \<Rightarrow> Own v
      | None \<Rightarrow> if key \<in> set inheritedKeys then Inherited else Missing)"

subsection \<open>State\<close>

record config =
  url :: string
  priority :: int
  maxRequestsPerSecond :: int

text \<open>An endpoint is \<open>{...config, connection, healthy, lastUsed, requestCount, errorCount}\<close>.\<close>

record endpoint = config +
  connection :: nat
  healthy :: bool
  lastUsed :: int
  requestCount :: int
  errorCount :: int

record counter =
  count :: int
  lastReset :: int

record manager =
  initialized :: bool
  failedRPCs :: "string fset"
  lastHealthCheck :: int
  healthCheckInterval :: int
  rpcConfigs :: "(string \<times> config list) list"
  connections :: "(string \<times> endpoint list) list"
  requestCounters :: "string \<rightharpoonup> counter"
  ticks :: nat

type_synonym clock = "nat \<Rightarrow> int"

definition dateNow :: "clock \<Rightarrow> manager \<Rightarrow> int \<times> manager" where
  "dateNow clk s = (clk (ticks s), s\<lparr>ticks := Suc (ticks s)\<rparr>)"

subsection \<open>The rate counter\<close>

text \<open>
  \<open>Math.floor(maxRequestsPerSecond * 0.8)\<close>. The literal \<open>0.8\<close> is the double
  3602879701896397 / 2^52. The product of two doubles is their exact product rounded
  to 53 significant bits, to the nearest value and to the even one on a tie
  (\<open>roundToDouble\<close>, on the numerator over 2^52 of the absolute value, the rounding
  being symmetric). \<open>div\<close> on \<open>int\<close> rounds down, as \<open>Math.floor\<close> does.
\<close>

function bitLength :: "int \<Rightarrow> nat" where
  "bitLength n = (if n \<le> 0 then 0 else Suc (bitLength (n div 2)))"
  by pat_completeness auto
termination
  by (relation "measure nat") auto

definition roundToDouble :: "int \<Rightarrow> int" where
  "roundToDouble p =
     (let k = bitLength p - 53; q = p div 2 ^ k; r = p mod 2 ^ k in
      if k = 0 then p
      else if 2 * r < 2 ^ k then q * 2 ^ k
      else if 2 ^ k < 2 * r then (q + 1) * 2 ^ k
      else if even q then q * 2 ^ k else (q + 1) * 2 ^ k)"

definition safeLimit :: "int \<Rightarrow> int" where
  "safeLimit maxRPS =
     (let m = roundToDouble (\<bar>maxRPS\<bar> * 3602879701896397) in
      if 0 \<le> maxRPS then m div 2 ^ 52 else (- m) div 2 ^ 52)"

definition canMakeRequest :: "clock \<Rightarrow> manager \<Rightarrow> string \<Rightarrow> int \<Rightarrow> bool \<times> manager" where
  "canMakeRequest clk s u maxRPS =
     (case requestCounters s u of
        None \<Rightarrow> (True, s)
      | Some c \<Rightarrow>
          (case dateNow clk s of (now, s1) \<Rightarrow>
             if now - lastReset c \<ge> 1000
             then (True, s1\<lparr>requestCounters :=
                     (requestCounters s1)(u \<mapsto> c\<lparr>count := 0, lastReset := now\<rparr>)\<rparr>)
             else (count c < safeLimit maxRPS, s1)))"

definition updateRequestCounter :: "manager \<Rightarrow> string \<Rightarrow> manager" where
  "updateRequestCounter s u =
     (case requestCounters s u of
        None \<Rightarrow> s
      | Some c \<Rightarrow> s\<lparr>requestCounters := (requestCounters s)(u \<mapsto> c\<lparr>count := count c + 1\<rparr>)\<rparr>)"

subsection \<open>Endpoint selection\<close>

text \<open>
  The callback of \<open>connections.filter\<close>, with the short circuit of \<open>&&\<close>: the rate
  counter is consulted (and possibly reset) only for a healthy endpoint that is not in
  the failed set.
\<close>

definition isCandidate :: "clock \<Rightarrow> manager \<Rightarrow> endpoint \<Rightarrow> bool \<times> manager" where
  "isCandidate clk s conn =
     (if healthy conn \<and> url conn |\<notin>| failedRPCs s
      then canMakeRequest clk s (url conn) (maxRequestsPerSecond conn)
      else (False, s))"

text \<open>
  The filtered array holds the endpoint objects of the pool themselves; the embedding
  keeps their positions in the pool, so that the later update of \<open>selected\<close> is an update
  of the pool. The third argument is the position of the head of the list.
\<close>

fun filterHealthy :: "clock \<Rightarrow> manager \<Rightarrow> endpoint list \<Rightarrow> nat \<Rightarrow> nat list \<times> manager" where
  "filterHealthy clk s [] i = ([], s)"
| "filterHealthy clk s (conn # rest) i =
     (case isCandidate clk s conn of (keep, s1) \<Rightarrow>
        (case filterHealthy clk s1 rest (Suc i) of (is, s2) \<Rightarrow>
           (if keep then i # is else is, s2)))"

text \<open>The comparator handed to \<open>sort\<close>.\<close>

definition compareConn :: "endpoint \<Rightarrow> endpoint \<Rightarrow> int" where
  "compareConn a b =
     (if priority a \<noteq> priority b then priority a - priority b
      else requestCount a - requestCount b)"

text \<open>
  \<open>Array.prototype.sort\<close> is stable (ECMAScript 2019): elements that compare equal
  keep their order. A stable insertion sort computes that order.
\<close>

fun insertBy :: "('a \<Rightarrow> 'a \<Rightarrow> int) \<Rightarrow> 'a \<Rightarrow> 'a list \<Rightarrow> 'a list" where
  "insertBy cmp x [] = [x]"
| "insertBy cmp x (y # ys) = (if cmp x y \<le> 0 then x # y # ys else y # insertBy cmp x ys)"

definition sortBy :: "('a \<Rightarrow> 'a \<Rightarrow> int) \<Rightarrow> 'a list \<Rightarrow> 'a list" where
  "sortBy cmp xs = foldr (insertBy cmp) xs []"

text \<open>
  \<open>healthyConnections.sort((a, b) => ...)\<close> on the positions of the candidates in the
  pool.
\<close>

definition sortCandidates :: "endpoint list \<Rightarrow> nat list \<Rightarrow> nat list" where
  "sortCandidates pool cs = sortBy (\<lambda>i j. compareConn (pool ! i) (pool ! j)) cs"

text \<open>
  The statements after the sort: \<open>selected.lastUsed = Date.now()\<close>,
  \<open>selected.requestCount++\<close>, \<open>this.updateRequestCounter(selected.url)\<close>,
  \<open>return selected.connection\<close>.
\<close>

definition useSelected :: "clock \<Rightarrow> manager \<Rightarrow> string \<Rightarrow> endpoint list \<Rightarrow> nat \<Rightarrow> nat \<times> manager" where
  "useSelected clk s chain pool i =
     (case dateNow clk s of (now, s1) \<Rightarrow>
        let selected = (pool ! i)\<lparr>lastUsed := now, requestCount := requestCount (pool ! i) + 1\<rparr>;
            s2 = s1\<lparr>connections := AList.update chain (pool[i := selected]) (connections s1)\<rparr>
        in (connection selected, updateRequestCounter s2 (url selected)))"

text \<open>
  \<open>getBestRPC\<close> calls itself after the circuit-breaker reset. The first argument is
  the number of nested calls that the stack still holds. A call that finds no room
  does not return: the outcome is \<open>None\<close> and the state is the one at that call. (In
  the engine this is the \<open>RangeError\<close> of a stack overflow, which a caller can catch.)
  The lookup \<open>this.connections[chain]\<close> is truthy on an inherited property too;
  \<open>connections.filter\<close> is then \<open>undefined\<close> and calling it throws a \<open>TypeError\<close>
  (the messages of the engine's own errors are those of V8).
\<close>

fun getBestRPC ::
  "clock \<Rightarrow> nat \<Rightarrow> manager \<Rightarrow> string \<Rightarrow> (jserror + nat) option \<times> manager" where
  "getBestRPC clk 0 s chain = (None, s)"
| "getBestRPC clk (Suc depth) s chain =
     (if \<not> initialized s \<or> getProperty (connections s) chain = Missing
      then (Some (Inl (mkError (''RPC Manager not initialized for chain: '' @ chain))), s)
      else
        (case getProperty (connections s) chain of
           Own pool \<Rightarrow>
             (case filterHealthy clk s pool 0 of (healthyConnections, s1) \<Rightarrow>
                if healthyConnections = [] then
                  (if length pool \<le> fcard (failedRPCs s1)
                   then getBestRPC clk depth (s1\<lparr>failedRPCs := {||}\<rparr>) chain
                   else (Some (Inl (mkError (''No healthy RPCs available for '' @ chain))), s1))
                else
                  (case useSelected clk s1 chain pool
                          (hd (sortCandidates pool healthyConnections))
                   of (rpc, s2) \<Rightarrow> (Some (Inr rpc), s2)))
         | _ \<Rightarrow> (Some (Inl (mkError ''connections.filter is not a function'')), s)))"

subsection \<open>The retry executor\<close>

text \<open>The three classifications of a caught error, as the \<open>catch\<close> block tests them.\<close>

definition isRateLimit :: "jserror \<Rightarrow> bool" where
  "isRateLimit error =
     (code error = Number 429 \<or> msgIncludes error ''429'' \<or> msgIncludes error ''rate limit'')"

definition isNetworkError :: "jserror \<Rightarrow> bool" where
  "isNetworkError error =
     (msgIncludes error ''fetch failed'' \<or> code error = Str ''NETWORK_ERROR'')"

definition isValidationError :: "jserror \<Rightarrow> bool" where
  "isValidationError error = (msgIncludes error ''Invalid'' \<or> msgIncludes error ''Not found'')"

text \<open>
  \<open>parseInt\<close> with no radix, on a string: leading white space is skipped, a sign is
  read, a prefix \<open>0x\<close> or \<open>0X\<close> selects radix 16, and the longest run of digits of the
  radix is the value; without a digit the result is \<open>NaN\<close>. Strings are ASCII here, so
  white space is the ASCII white space.
\<close>

definition isWhiteSpace :: "char \<Rightarrow> bool" where
  "isWhiteSpace c = (c \<in> set [CHR '' '', CHR 0x09, CHR 0x0A, CHR 0x0B, CHR 0x0C, CHR 0x0D])"

definition digitValue :: "char \<Rightarrow> nat option" where
  "digitValue c =
     (let n = (of_char c :: nat) in
      if 48 \<le> n \<and> n \<le> 57 then Some (n - 48)
      else if 97 \<le> n \<and> n \<le> 122 then Some (n - 87)
      else if 65 \<le> n \<and> n \<le> 90 then Some (n - 55)
      else None)"

definition isRadixDigit :: "nat \<Rightarrow> char \<Rightarrow> bool" where
  "isRadixDigit radix c = (case digitValue c of None \<Rightarrow> False | Some v \<Rightarrow> v < radix)"

definition digitsValue :: "nat \<Rightarrow> string \<Rightarrow> int" where
  "digitsValue radix ds =
     foldl (\<lambda>acc c. case digitValue c of None \<Rightarrow> acc | Some v \<Rightarrow> acc * int radix + int v) 0 ds"

definition parseInt :: "string \<Rightarrow> int option" where
  "parseInt str =
     (let s0 = dropWhile isWhiteSpace str;
          (sign, s1) = (case s0 of
                          [] \<Rightarrow> (1, s0)
                        | c # r \<Rightarrow> if c = CHR ''-'' then (- 1, r)
                                   else if c = CHR ''+'' then (1, r) else (1, s0));
          (radix, s2) = (if take 2 s1 = ''0x'' \<or> take 2 s1 = ''0X'' then (16, drop 2 s1)
                         else (10, s1));
          ds = takeWhile (isRadixDigit radix) s2
      in if ds = [] then None else Some (sign * digitsValue radix ds))"

text \<open>\<open>error.message.match(/(\d+)/)\<close>: the first maximal run of decimal digits, if any.\<close>

definition isDigit :: "char \<Rightarrow> bool" where
  "isDigit c = (48 \<le> (of_char c :: nat) \<and> (of_char c :: nat) \<le> 57)"

definition matchDigits :: "string \<Rightarrow> string option" where
  "matchDigits m =
     (let ds = takeWhile isDigit (dropWhile (\<lambda>c. \<not> isDigit c) m)
      in if ds = [] then None else Some ds)"

text \<open>
  \<open>error.headers && error.headers['retry-after']\<close>, when truthy: the header is a
  string, and the empty string is falsy.
\<close>

definition retryAfter :: "jserror \<Rightarrow> string option" where
  "retryAfter error =
     (case headers error of
        None \<Rightarrow> None
      | Some h \<Rightarrow> (case map_of h ''retry-after'' of
                     None \<Rightarrow> None
                   | Some v \<Rightarrow> if v = [] then None else Some v))"

text \<open>
  \<open>handleRateLimit\<close> sleeps and changes nothing else; its value here is the argument
  it passes to \<open>sleep\<close>. \<open>Math.max\<close> and \<open>Math.min\<close> return \<open>NaN\<close> on \<open>NaN\<close>.
\<close>

definition handleRateLimit :: "jserror \<Rightarrow> int option" where
  "handleRateLimit error =
     (let waitTime =
        (case retryAfter error of
           Some v \<Rightarrow> map_option (\<lambda>n. n * 1000) (parseInt v)
         | None \<Rightarrow>
             (case message error of
                None \<Rightarrow> Some 5000
              | Some m \<Rightarrow>
                  if str_includes m ''wait''
                  then (case matchDigits m of
                          None \<Rightarrow> Some 5000
                        | Some ds \<Rightarrow> map_option (\<lambda>n. n * 1000) (parseInt ds))
                  else Some 5000))
      in map_option (\<lambda>w. min (max w 5000) 60000) waitTime)"

fun findIndex :: "('a \<Rightarrow> bool) \<Rightarrow> 'a list \<Rightarrow> nat option" where
  "findIndex P [] = None"
| "findIndex P (x # xs) = (if P x then Some 0 else map_option Suc (findIndex P xs))"

text \<open>
  \<open>resetRPCErrors\<close> returns nothing; the first component of its value here is the
  error it throws, if any: on an inherited property \<open>this.connections[chain].find\<close> is
  \<open>undefined\<close>.
\<close>

definition resetRPCErrors :: "manager \<Rightarrow> string \<Rightarrow> nat \<Rightarrow> jserror option \<times> manager" where
  "resetRPCErrors s chain conn =
     (case getProperty (connections s) chain of
        Missing \<Rightarrow> (None, s)
      | Inherited \<Rightarrow> (Some (mkError ''this.connections[chain].find is not a function''), s)
      | Own pool \<Rightarrow>
          (case findIndex (\<lambda>c. connection c = conn) pool of
             None \<Rightarrow> (None, s)
           | Some i \<Rightarrow>
               let rpc = (pool ! i)\<lparr>errorCount := 0, healthy := True\<rparr>
               in (None, s\<lparr>connections := AList.update chain (pool[i := rpc]) (connections s),
                            failedRPCs := failedRPCs s |-| {|url rpc|}\<rparr>)))"

text \<open>
  What a run of \<open>executeWithRetry\<close> does besides changing the manager is recorded as a
  trace: the start of each iteration of the loop, each failure of \<open>getBestRPC\<close>, each
  call of the operation with the connection it received, each error thrown by the
  operation, each error thrown by \<open>resetRPCErrors\<close>, and each \<open>sleep\<close> with its argument.
\<close>

datatype event =
  Attempt int | SelectFailed jserror | Invoked nat | Threw jserror | ResetFailed jserror
  | Slept "int option"

text \<open>
  The operation is the caller's closure. It receives the connection; it may behave
  differently from one call to the next, so it also depends on the number of the
  attempt. It returns a result or throws an error object.
\<close>

type_synonym 'r operation = "int \<Rightarrow> nat \<Rightarrow> jserror + 'r"

text \<open>
  The run is suspended at \<open>await this.getBestRPC(chain)\<close>, at \<open>await operation(rpc)\<close>
  and in \<open>sleep\<close>. Other calls of \<open>executeWithRetry\<close> and the health monitor run
  meanwhile and may change the manager: the run resumes in the state
  \<open>env attempt suspension s\<close>, where \<open>s\<close> is the state in which it was suspended.
\<close>

datatype suspension = AwaitSelection | AwaitOperation | AwaitSleep

type_synonym interference = "int \<Rightarrow> suspension \<Rightarrow> manager \<Rightarrow> manager"

text \<open>The error of a call that found no room on the stack.\<close>

definition stackOverflow :: jserror where
  "stackOverflow = mkError ''Maximum call stack size exceeded''"

text \<open>
  The \<open>try\<close> block of one iteration. The value is what the block returns or what the
  \<open>catch\<close> block receives.
\<close>

definition tryBlock ::
  "clock \<Rightarrow> nat \<Rightarrow> interference \<Rightarrow> string \<Rightarrow> 'r operation \<Rightarrow> int \<Rightarrow> manager \<Rightarrow> event list
     \<Rightarrow> (jserror + 'r) \<times> manager \<times> event list" where
  "tryBlock clk depth env chain operation attempt s tr =
     (case getBestRPC clk depth s chain of (selection, s1) \<Rightarrow>
        let s2 = env attempt AwaitSelection s1 in
        (case selection of
           None \<Rightarrow> (Inl stackOverflow, s2, tr @ [SelectFailed stackOverflow])
         | Some (Inl error) \<Rightarrow> (Inl error, s2, tr @ [SelectFailed error])
         | Some (Inr rpc) \<Rightarrow>
             let s3 = env attempt AwaitOperation s2 in
             (case operation attempt rpc of
                Inl error \<Rightarrow> (Inl error, s3, tr @ [Invoked rpc, Threw error])
              | Inr result \<Rightarrow>
                  (case resetRPCErrors s3 chain rpc of
                     (Some error, s4) \<Rightarrow> (Inl error, s4, tr @ [Invoked rpc, ResetFailed error])
                   | (None, s4) \<Rightarrow> (Inr result, s4, tr @ [Invoked rpc])))))"

text \<open>
  The \<open>for\<close> loop from a given attempt on. The thrown value is \<open>lastError\<close>, which is
  \<open>undefined\<close> (\<open>None\<close>) when the loop body never ran. The default of 3 for
  \<open>maxRetries\<close> is the caller passing 3.
\<close>

function retryLoop ::
  "clock \<Rightarrow> nat \<Rightarrow> interference \<Rightarrow> string \<Rightarrow> 'r operation \<Rightarrow> int \<Rightarrow> int \<Rightarrow> jserror option
     \<Rightarrow> manager \<Rightarrow> event list \<Rightarrow> (jserror option + 'r) \<times> manager \<times> event list" where
  "retryLoop clk depth env chain operation maxRetries attempt lastError s tr =
     (if attempt \<le> maxRetries then
        (case tryBlock clk depth env chain operation attempt s (tr @ [Attempt attempt]) of
           (Inr result, s1, tr1) \<Rightarrow> (Inr result, s1, tr1)
         | (Inl error, s1, tr1) \<Rightarrow>
             if isRateLimit error \<and> attempt < maxRetries then
               retryLoop clk depth env chain operation maxRetries (attempt + 1) (Some error)
                 (env attempt AwaitSleep s1) (tr1 @ [Slept (handleRateLimit error)])
             else if isNetworkError error \<and> attempt < maxRetries then
               retryLoop clk depth env chain operation maxRetries (attempt + 1) (Some error)
                 (env attempt AwaitSleep s1) (tr1 @ [Slept (Some (1000 * attempt))])
             else if isValidationError error then (Inl (Some error), s1, tr1)
             else if attempt < maxRetries then
               retryLoop clk depth env chain operation maxRetries (attempt + 1) (Some error)
                 (env attempt AwaitSleep s1) (tr1 @ [Slept (Some (500 * attempt))])
             else
               retryLoop clk depth env chain operation maxRetries (attempt + 1) (Some error) s1 tr1)
      else (Inl lastError, s, tr))"
  by pat_completeness auto
termination
  by (relation "measure (\<lambda>(clk, depth, env, chain, operation, maxRetries, attempt, lastError, s, tr).
        nat (maxRetries + 1 - attempt))") auto

definition executeWithRetry ::
  "clock \<Rightarrow> nat \<Rightarrow> interference \<Rightarrow> manager \<Rightarrow> string \<Rightarrow> 'r operation \<Rightarrow> int
     \<Rightarrow> (jserror option + 'r) \<times> manager \<times> event list" where
  "executeWithRetry clk depth env s chain operation maxRetries =
     retryLoop clk depth env chain operation maxRetries 1 None s []"

text \<open>Readings of a trace.\<close>

definition attempts :: "event list \<Rightarrow> int list" where
  "attempts tr = concat (map (\<lambda>ev. case ev of Attempt k \<Rightarrow> [k] | _ \<Rightarrow> []) tr)"

definition invocations :: "event list \<Rightarrow> nat list" where
  "invocations tr = concat (map (\<lambda>ev. case ev of Invoked rpc \<Rightarrow> [rpc] | _ \<Rightarrow> []) tr)"

definition thrown :: "event list \<Rightarrow> jserror list" where
  "thrown tr = concat (map (\<lambda>ev. case ev of Threw e \<Rightarrow> [e] | _ \<Rightarrow> []) tr)"

definition sleeps :: "event list \<Rightarrow> int option list" where
  "sleeps tr = concat (map (\<lambda>ev. case ev of Slept ms \<Rightarrow> [ms] | _ \<Rightarrow> []) tr)"

definition selectionFailures :: "event list \<Rightarrow> jserror list" where
  "selectionFailures tr = concat (map (\<lambda>ev. case ev of SelectFailed e \<Rightarrow> [e] | _ \<Rightarrow> []) tr)"

text \<open>The time slept in total; a \<open>NaN\<close> argument of \<open>sleep\<close> counts as no time.\<close>

definition totalSleep :: "event list \<Rightarrow> int" where
  "totalSleep tr = sum_list (map (\<lambda>ms. case ms of None \<Rightarrow> 0 | Some w \<Rightarrow> w) (sleeps tr))"

subsection \<open>The health monitor\<close>





subsection \<open>Administration\<close>

text \<open>
  \<open>removeRPC\<close> returns nothing; the first component of its value here is the error it
  throws, if any: on an inherited property \<open>this.rpcConfigs[chain].filter\<close> is
  \<open>undefined\<close>.
\<close>

definition removeRPC :: "manager \<Rightarrow> string \<Rightarrow> string \<Rightarrow> jserror option \<times> manager" where
  "removeRPC s chain u =
     (case getProperty (rpcConfigs s) chain of
        Missing \<Rightarrow> (None, s)
      | Inherited \<Rightarrow> (Some (mkError ''this.rpcConfigs[chain].filter is not a function''), s)
      | Own cfgs \<Rightarrow>
          (None,
           s\<lparr>rpcConfigs := AList.update chain (filter (\<lambda>rpc. url rpc \<noteq> u) cfgs) (rpcConfigs s),
             failedRPCs := failedRPCs s |-| {|u|}\<rparr>))"

subsection \<open>Auxiliary notions\<close>

text \<open>
  The rate counter of a url is under a limit when it is absent, freshly reset, or
  below the limit.
\<close>

definition underCap :: "manager \<Rightarrow> string \<Rightarrow> int \<Rightarrow> bool" where
  "underCap s u L = (case requestCounters s u of None \<Rightarrow> True | Some c \<Rightarrow> count c = 0 \<or> count c < L)"

text \<open>
  How the rate counter of one url can differ between two states when nothing but
  \<open>canMakeRequest\<close> has touched it: not at all, or by resets, the last of which left
  the count 0 and a reset time at least 1000 after the former one.
\<close>

definition resetOnly :: "counter option \<Rightarrow> counter option \<Rightarrow> bool" where
  "resetOnly a b =
     (case a of
        None \<Rightarrow> b = None
      | Some c \<Rightarrow>
          (case b of
             None \<Rightarrow> False
           | Some c' \<Rightarrow> c' = c \<or> (lastReset c + 1000 \<le> lastReset c' \<and> count c' = 0)))"

text \<open>
  Consecutive calls of \<open>getBestRPC\<close>, one for each chain of a list: the outcome of
  each call and the state it leaves.
\<close>

fun getBestRPC_calls ::
  "clock \<Rightarrow> nat \<Rightarrow> string list \<Rightarrow> manager \<Rightarrow> ((jserror + nat) option \<times> manager) list" where
  "getBestRPC_calls clk depth [] s = []"
| "getBestRPC_calls clk depth (chain # requests) s =
     (case getBestRPC clk depth s chain of (r, s1) \<Rightarrow>
        (r, s1) # getBestRPC_calls clk depth requests s1)"

text \<open>
  A window of the rate counter of a url is the time between two resets of the counter;
  it is named by the reset time that opens it. The number of calls, among consecutive
  calls for the chains \<open>requests\<close> with the outcomes and states \<open>results\<close>, that were for a
  given chain, returned a given connection, and fell into the window \<open>w\<close> of the url
  \<open>u\<close>:
\<close>

definition windowSelections ::
  "string \<Rightarrow> nat \<Rightarrow> string \<Rightarrow> int \<Rightarrow> string list \<Rightarrow> ((jserror + nat) option \<times> manager) list
     \<Rightarrow> nat" where
  "windowSelections chain rpc u w requests results =
     length (filter (\<lambda>(c, r, t). c = chain \<and> r = Some (Inr rpc) \<and>
                        map_option lastReset (requestCounters t u) = Some w)
               (zip requests results))"

text \<open>The fields of an endpoint that no method changes.\<close>

definition fixedPart :: "endpoint \<Rightarrow> string \<times> int \<times> int \<times> nat" where
  "fixedPart e = (url e, priority e, maxRequestsPerSecond e, connection e)"


text \<open>The connection handles of a chain's pool, in pool order.\<close>

definition handles :: "manager \<Rightarrow> string \<Rightarrow> nat list option" where
  "handles s chain = map_option (map connection) (map_of (connections s) chain)"

text \<open>
  What one pass through the \<open>catch\<close> block appends to the trace, and whether it
  throws, read off the definition of \<open>retryLoop\<close>.
\<close>

definition catchSleep :: "jserror \<Rightarrow> int \<Rightarrow> int \<Rightarrow> event list" where
  "catchSleep error attempt maxRetries =
     (if isRateLimit error \<and> attempt < maxRetries then [Slept (handleRateLimit error)]
      else if isNetworkError error \<and> attempt < maxRetries then [Slept (Some (1000 * attempt))]
      else if isValidationError error then []
      else if attempt < maxRetries then [Slept (Some (500 * attempt))] else [])"

definition catchThrows :: "jserror \<Rightarrow> int \<Rightarrow> int \<Rightarrow> bool" where
  "catchThrows error attempt maxRetries =
     (\<not> (isRateLimit error \<and> attempt < maxRetries) \<and>
      \<not> (isNetworkError error \<and> attempt < maxRetries) \<and> isValidationError error)"

section \<open>Scenarios\<close>

text \<open>
  The scenario of the specification: chain "ethereum" with two endpoints, A of
  priority 1 and B of priority 2, both of capacity 5; and chain "solana" with one
  endpoint. Every endpoint has its rate counter, as \<open>initialize\<close> creates them.
\<close>

definition endpointA :: endpoint where
  "endpointA = \<lparr>url = ''https://a.example'', priority = 1, maxRequestsPerSecond = 5,
     connection = 1, healthy = True, lastUsed = 0, requestCount = 0, errorCount = 0\<rparr>"

definition endpointB :: endpoint where
  "endpointB = \<lparr>url = ''https://b.example'', priority = 2, maxRequestsPerSecond = 5,
     connection = 2, healthy = True, lastUsed = 0, requestCount = 0, errorCount = 0\<rparr>"

definition endpointS :: endpoint where
  "endpointS = \<lparr>url = ''https://api.mainnet-beta.solana.com'', priority = 1,
     maxRequestsPerSecond = 5,
     connection = 3, healthy = True, lastUsed = 0, requestCount = 0, errorCount = 0\<rparr>"

definition exampleManager :: manager where
  "exampleManager = \<lparr>initialized = True, failedRPCs = {||}, lastHealthCheck = 0,
     healthCheckInterval = 120000,
     rpcConfigs = [(''ethereum'', [config.truncate endpointA, config.truncate endpointB]),
                   (''solana'', [config.truncate endpointS])],
     connections = [(''ethereum'', [endpointA, endpointB]), (''solana'', [endpointS])],
     requestCounters = [url endpointA \<mapsto> \<lparr>count = 0, lastReset = 0\<rparr>,
                        url endpointB \<mapsto> \<lparr>count = 0, lastReset = 0\<rparr>,
                        url endpointS \<mapsto> \<lparr>count = 0, lastReset = 0\<rparr>],
     ticks = 0\<rparr>"

text \<open>The same with the pool of "ethereum" in the other order, B before A.\<close>

definition reversedManager :: manager where
  "reversedManager = exampleManager\<lparr>connections :=
     [(''ethereum'', [endpointB, endpointA]), (''solana'', [endpointS])]\<rparr>"

text \<open>
  The solana endpoint has used up its rate window (four selections since the reset at
  time 0), and the url of the ethereum endpoint A is in the failed set.
\<close>

definition cappedManager :: manager where
  "cappedManager = exampleManager\<lparr>failedRPCs := {|url endpointA|},
     requestCounters := (requestCounters exampleManager)
        (url endpointS \<mapsto> \<lparr>count = 4, lastReset = 0\<rparr>)\<rparr>"

text \<open>
  The state \<open>initialize\<close> leaves when the constructor of the one solana connection
  throws: the \<open>catch\<close> adds the url to the failed set, no rate counter is created for
  it, and the pool of the chain stays the empty array that was assigned before the
  loop over the configurations.
\<close>

definition emptyPoolManager :: manager where
  "emptyPoolManager = exampleManager\<lparr>failedRPCs := {|url endpointS|},
     connections := [(''ethereum'', [endpointA, endpointB]), (''solana'', [])],
     requestCounters := (requestCounters exampleManager)(url endpointS := None)\<rparr>"

text \<open>
  Operations and errors: an HTTP 429 error; a validation error whose message happens
  to contain the digits 429; a "Not found" error that carries the code NETWORK_ERROR;
  an operation that always throws a given error; and one that fails once with an error
  of no special class and then succeeds.
\<close>

definition tooManyRequests :: jserror where
  "tooManyRequests = \<lparr>code = Number 429, message = Some ''Too Many Requests'', headers = None\<rparr>"

definition invalidAddress :: jserror where
  "invalidAddress = \<lparr>code = Undefined, message = Some ''Invalid address: 0x4290f3c1'',
     headers = None\<rparr>"

definition notFoundNetwork :: jserror where
  "notFoundNetwork = \<lparr>code = Str ''NETWORK_ERROR'', message = Some ''Not found'', headers = None\<rparr>"

definition alwaysThrows :: "jserror \<Rightarrow> unit operation" where
  "alwaysThrows e = (\<lambda>attempt rpc. Inl e)"

definition succeedsSecond :: "int operation" where
  "succeedsSecond = (\<lambda>attempt rpc. if attempt < 2 then Inl (mkError ''socket hang up'') else Inr 42)"

text \<open>
  Interference: none; and a health monitor that, while the operation of the second
  attempt is awaited, records a fifth failed probe on endpoint A. The last scenario
  has four health-check failures recorded on endpoint A.
\<close>

definition noInterference :: interference where
  "noInterference = (\<lambda>attempt suspension s. s)"

definition monitorFailsA :: interference where
  "monitorFailsA = (\<lambda>attempt suspension s.
     if attempt = 2 \<and> suspension = AwaitOperation
     then (case map_of (connections s) ''ethereum'' of
             None \<Rightarrow> s
           | Some pool \<Rightarrow>
               s\<lparr>connections := AList.update ''ethereum''
                     (map (\<lambda>e. if url e = url endpointA
                               then e\<lparr>errorCount := 5, healthy := False\<rparr> else e) pool)
                     (connections s),
                  failedRPCs := finsert (url endpointA) (failedRPCs s)\<rparr>)
     else s)"

definition wornManager :: manager where
  "wornManager = exampleManager\<lparr>connections :=
     [(''ethereum'', [endpointA\<lparr>errorCount := 4\<rparr>, endpointB]), (''solana'', [endpointS])]\<rparr>"

section \<open>Lemmas on endpoint selection\<close>

lemma canMakeRequest_frame:
  assumes "canMakeRequest clk s u m = (b, s')"
  shows "connections s' = connections s" "failedRPCs s' = failedRPCs s"
    "initialized s' = initialized s" "rpcConfigs s' = rpcConfigs s"
    "lastHealthCheck s' = lastHealthCheck s" "healthCheckInterval s' = healthCheckInterval s"
    "ticks s \<le> ticks s'" "dom (requestCounters s') = dom (requestCounters s)"
  using assms
  by (auto simp: canMakeRequest_def dateNow_def split: option.splits if_splits)

lemma isCandidate_frame:
  assumes "isCandidate clk s e = (b, s')"
  shows "connections s' = connections s" "failedRPCs s' = failedRPCs s"
    "initialized s' = initialized s" "rpcConfigs s' = rpcConfigs s"
    "lastHealthCheck s' = lastHealthCheck s" "healthCheckInterval s' = healthCheckInterval s"
    "ticks s \<le> ticks s'" "dom (requestCounters s') = dom (requestCounters s)"
  using assms canMakeRequest_frame[of clk s "url e" "maxRequestsPerSecond e" b s']
  by (auto simp: isCandidate_def split: if_splits)

lemma filterHealthy_frame:
  assumes "filterHealthy clk s pool i = (cs, s')"
  shows "connections s' = connections s \<and> failedRPCs s' = failedRPCs s \<and>
    initialized s' = initialized s \<and> rpcConfigs s' = rpcConfigs s \<and>
    lastHealthCheck s' = lastHealthCheck s \<and> healthCheckInterval s' = healthCheckInterval s \<and>
    ticks s \<le> ticks s' \<and> dom (requestCounters s') = dom (requestCounters s)"
  using assms
proof (induction pool arbitrary: s i cs s')
  case Nil
  then show ?case by simp
next
  case (Cons e pool)
  obtain b s1 where c: "isCandidate clk s e = (b, s1)" by (cases "isCandidate clk s e")
  obtain ks s2 where f: "filterHealthy clk s1 pool (Suc i) = (ks, s2)"
    by (cases "filterHealthy clk s1 pool (Suc i)")
  from Cons.prems c f have "s' = s2" by simp
  with Cons.IH[OF f] isCandidate_frame[OF c] show ?case by simp
qed

lemma filterHealthy_indices:
  "filterHealthy clk s pool i = (cs, s') \<Longrightarrow> k \<in> set cs \<Longrightarrow> i \<le> k \<and> k < i + length pool"
proof (induction pool arbitrary: s i cs s')
  case Nil
  then show ?case by simp
next
  case (Cons e pool)
  obtain b s1 where c: "isCandidate clk s e = (b, s1)" by (cases "isCandidate clk s e")
  obtain ks s2 where f: "filterHealthy clk s1 pool (Suc i) = (ks, s2)"
    by (cases "filterHealthy clk s1 pool (Suc i)")
  from Cons.prems c f have cs: "cs = (if b then i # ks else ks)" by simp
  show ?case
  proof (cases "k \<in> set ks")
    case True
    from Cons.IH[OF f True] show ?thesis by simp
  next
    case False
    with Cons.prems(2) cs have "k = i" by (auto split: if_splits)
    then show ?thesis by simp
  qed
qed

lemma canMakeRequest_underCap_pres:
  "canMakeRequest clk s u m = (b, s') \<Longrightarrow> underCap s v L \<Longrightarrow> underCap s' v L"
  by (auto simp: canMakeRequest_def dateNow_def underCap_def split: option.splits if_splits)

lemma canMakeRequest_underCap_est:
  "canMakeRequest clk s u m = (True, s') \<Longrightarrow> underCap s' u (safeLimit m)"
  by (auto simp: canMakeRequest_def dateNow_def underCap_def split: option.splits if_splits)

lemma isCandidate_underCap_pres:
  "isCandidate clk s e = (b, s') \<Longrightarrow> underCap s v L \<Longrightarrow> underCap s' v L"
  by (auto simp: isCandidate_def split: if_splits dest: canMakeRequest_underCap_pres)

lemma isCandidate_True:
  "isCandidate clk s e = (True, s') \<Longrightarrow>
     healthy e \<and> url e |\<notin>| failedRPCs s \<and> underCap s' (url e) (safeLimit (maxRequestsPerSecond e))"
  by (auto simp: isCandidate_def split: if_splits dest: canMakeRequest_underCap_est)

lemma filterHealthy_underCap_pres:
  "filterHealthy clk s pool i = (cs, s') \<Longrightarrow> underCap s v L \<Longrightarrow> underCap s' v L"
proof (induction pool arbitrary: s i cs s')
  case Nil
  then show ?case by simp
next
  case (Cons e pool)
  obtain b s1 where c: "isCandidate clk s e = (b, s1)" by (cases "isCandidate clk s e")
  obtain ks s2 where f: "filterHealthy clk s1 pool (Suc i) = (ks, s2)"
    by (cases "filterHealthy clk s1 pool (Suc i)")
  from Cons.prems(1) c f have "s' = s2" by simp
  with Cons.IH[OF f isCandidate_underCap_pres[OF c Cons.prems(2)]] show ?case by simp
qed

lemma filterHealthy_candidates:
  "filterHealthy clk s pool i = (cs, s') \<Longrightarrow> k \<in> set cs \<Longrightarrow>
     healthy (pool ! (k - i)) \<and> url (pool ! (k - i)) |\<notin>| failedRPCs s \<and>
     underCap s' (url (pool ! (k - i))) (safeLimit (maxRequestsPerSecond (pool ! (k - i))))"
proof (induction pool arbitrary: s i cs s')
  case Nil
  then show ?case by simp
next
  case (Cons e pool)
  obtain b s1 where c: "isCandidate clk s e = (b, s1)" by (cases "isCandidate clk s e")
  obtain ks s2 where f: "filterHealthy clk s1 pool (Suc i) = (ks, s2)"
    by (cases "filterHealthy clk s1 pool (Suc i)")
  from Cons.prems(1) c f have cs: "cs = (if b then i # ks else ks)" and s': "s' = s2" by simp_all
  show ?case
  proof (cases "k \<in> set ks")
    case True
    from filterHealthy_indices[OF f True] have "Suc i \<le> k" by simp
    then have "(e # pool) ! (k - i) = pool ! (k - Suc i)" by (simp add: Suc_diff_le)
    moreover from isCandidate_frame(2)[OF c] have "failedRPCs s1 = failedRPCs s" .
    ultimately show ?thesis using Cons.IH[OF f True] s' by simp
  next
    case False
    with Cons.prems(2) cs have k: "k = i" and b: "b" by (auto split: if_splits)
    from c b have "isCandidate clk s e = (True, s1)" by simp
    from isCandidate_True[OF this] filterHealthy_underCap_pres[OF f] k s'
    show ?thesis by simp
  qed
qed

lemma set_insertBy: "set (insertBy cmp x ys) = insert x (set ys)"
  by (induction ys) auto

lemma set_sortBy: "set (sortBy cmp xs) = set xs"
  by (induction xs) (simp_all add: sortBy_def set_insertBy)

lemma sortBy_Nil_iff: "sortBy cmp xs = [] \<longleftrightarrow> xs = []"
  using set_sortBy[of cmp xs] by (metis set_empty)

lemma hd_insertBy:
  "hd (insertBy cmp x ys) = (if ys = [] \<or> cmp x (hd ys) \<le> 0 then x else hd ys)"
  by (cases ys) auto

lemma hd_sortBy_least:
  assumes total: "\<And>x y. 0 < cmp x y \<Longrightarrow> cmp y x \<le> 0"
    and trans: "\<And>x y z. cmp x y \<le> 0 \<Longrightarrow> cmp y z \<le> 0 \<Longrightarrow> cmp x z \<le> 0"
  shows "y \<in> set xs \<Longrightarrow> cmp (hd (sortBy cmp xs)) y \<le> 0"
proof (induction xs arbitrary: y)
  case Nil
  then show ?case by simp
next
  case (Cons x xs)
  have refl: "cmp z z \<le> 0" for z using total[of z z] by linarith
  let ?r = "sortBy cmp xs"
  have step: "sortBy cmp (x # xs) = insertBy cmp x ?r" by (simp add: sortBy_def)
  show ?case
  proof (cases "xs = []")
    case True
    with Cons.prems show ?thesis by (simp add: sortBy_def refl)
  next
    case False
    then have rne: "?r \<noteq> []" by (simp add: sortBy_Nil_iff)
    have hin: "hd ?r \<in> set xs" using rne set_sortBy[of cmp xs] hd_in_set by blast
    show ?thesis
    proof (cases "cmp x (hd ?r) \<le> 0")
      case True
      then have h: "hd (sortBy cmp (x # xs)) = x" by (simp add: step hd_insertBy)
      show ?thesis
      proof (cases "y = x")
        case True
        then show ?thesis by (simp add: h refl)
      next
        case False
        with Cons.prems have "y \<in> set xs" by simp
        from Cons.IH[OF this] \<open>cmp x (hd ?r) \<le> 0\<close> show ?thesis
          by (simp add: h trans)
      qed
    next
      case False
      then have h: "hd (sortBy cmp (x # xs)) = hd ?r" using rne by (simp add: step hd_insertBy)
      from False have "cmp (hd ?r) x \<le> 0" using total[of x "hd ?r"] by linarith
      with Cons.IH Cons.prems show ?thesis by (auto simp: h)
    qed
  qed
qed

lemma compareConn_total: "0 < compareConn a b \<Longrightarrow> compareConn b a \<le> 0"
  by (auto simp: compareConn_def split: if_splits)

lemma compareConn_trans:
  "compareConn a b \<le> 0 \<Longrightarrow> compareConn b c \<le> 0 \<Longrightarrow> compareConn a c \<le> 0"
  by (auto simp: compareConn_def split: if_splits)

lemma compareConn_le_iff:
  "compareConn a b \<le> 0 \<longleftrightarrow>
     priority a < priority b \<or> (priority a = priority b \<and> requestCount a \<le> requestCount b)"
  by (auto simp: compareConn_def)

lemma sortCandidates_set: "set (sortCandidates pool cs) = set cs"
  by (simp add: sortCandidates_def set_sortBy)

lemma sortCandidates_hd_in: "cs \<noteq> [] \<Longrightarrow> hd (sortCandidates pool cs) \<in> set cs"
  by (metis hd_in_set set_empty sortCandidates_set)

lemma sortCandidates_hd_least:
  "j \<in> set cs \<Longrightarrow> compareConn (pool ! hd (sortCandidates pool cs)) (pool ! j) \<le> 0"
  unfolding sortCandidates_def
  by (rule hd_sortBy_least[where cmp = "\<lambda>i j. compareConn (pool ! i) (pool ! j)"])
     (auto intro: compareConn_total compareConn_trans)

lemma sorted_wrt_insertBy:
  assumes total: "\<And>x y. 0 < cmp x y \<Longrightarrow> cmp y x \<le> 0"
    and trans: "\<And>x y z. cmp x y \<le> 0 \<Longrightarrow> cmp y z \<le> 0 \<Longrightarrow> cmp x z \<le> 0"
  shows "sorted_wrt (\<lambda>a b. cmp a b \<le> 0) ys \<Longrightarrow> sorted_wrt (\<lambda>a b. cmp a b \<le> 0) (insertBy cmp x ys)"
proof (induction ys)
  case Nil
  then show ?case by simp
next
  case (Cons y ys)
  show ?case
  proof (cases "cmp x y \<le> 0")
    case True
    with Cons.prems show ?thesis by (auto intro: trans)
  next
    case False
    then have "cmp y x \<le> 0" using total[of x y] by linarith
    with False Cons show ?thesis by (auto simp: set_insertBy)
  qed
qed

lemma sorted_wrt_sortBy:
  assumes total: "\<And>x y. 0 < cmp x y \<Longrightarrow> cmp y x \<le> 0"
    and trans: "\<And>x y z. cmp x y \<le> 0 \<Longrightarrow> cmp y z \<le> 0 \<Longrightarrow> cmp x z \<le> 0"
  shows "sorted_wrt (\<lambda>a b. cmp a b \<le> 0) (sortBy cmp xs)"
proof (induction xs)
  case Nil
  then show ?case by (simp add: sortBy_def)
next
  case (Cons x xs)
  have "sortBy cmp (x # xs) = insertBy cmp x (sortBy cmp xs)" by (simp add: sortBy_def)
  with sorted_wrt_insertBy[of cmp "sortBy cmp xs" x, OF total trans Cons] show ?case by simp
qed

lemma sortCandidates_sorted:
  "sorted_wrt (\<lambda>i j. priority (pool ! i) < priority (pool ! j) \<or>
        (priority (pool ! i) = priority (pool ! j) \<and> requestCount (pool ! i) \<le> requestCount (pool ! j)))
     (sortCandidates pool cs)"
proof -
  have "sorted_wrt (\<lambda>i j. compareConn (pool ! i) (pool ! j) \<le> 0) (sortCandidates pool cs)"
    unfolding sortCandidates_def
    by (rule sorted_wrt_sortBy[where cmp = "\<lambda>i j. compareConn (pool ! i) (pool ! j)"])
       (auto intro: compareConn_total compareConn_trans)
  then show ?thesis by (simp add: compareConn_le_iff)
qed

lemma safeLimit_5: "safeLimit 5 = 4"
  by code_simp

lemma getProperty_Own: "map_of obj key = Some v \<Longrightarrow> getProperty obj key = Own v"
  by (simp add: getProperty_def)

lemma getProperty_Own_iff: "getProperty obj key = Own v \<longleftrightarrow> map_of obj key = Some v"
  by (auto simp: getProperty_def split: option.splits)

lemma getProperty_Missing_iff:
  "getProperty obj key = Missing \<longleftrightarrow> map_of obj key = None \<and> key \<notin> set inheritedKeys"
  by (auto simp: getProperty_def split: option.splits)

lemma getProperty_Inherited_iff:
  "getProperty obj key = Inherited \<longleftrightarrow> map_of obj key = None \<and> key \<in> set inheritedKeys"
  by (auto simp: getProperty_def split: option.splits)

lemma getBestRPC_selects:
  assumes "initialized s" and "map_of (connections s) chain = Some pool"
    and "filterHealthy clk s pool 0 = (cs, s1)" and "cs \<noteq> []"
  shows "getBestRPC clk (Suc depth) s chain =
           (Some (Inr (fst (useSelected clk s1 chain pool (hd (sortCandidates pool cs))))),
            snd (useSelected clk s1 chain pool (hd (sortCandidates pool cs))))"
  using assms by (simp add: getProperty_Own case_prod_beta)

lemma getBestRPC_breaker:
  assumes "initialized s" and "map_of (connections s) chain = Some pool"
    and "filterHealthy clk s pool 0 = ([], s1)" and "length pool \<le> fcard (failedRPCs s)"
  shows "getBestRPC clk (Suc depth) s chain = getBestRPC clk depth (s1\<lparr>failedRPCs := {||}\<rparr>) chain"
  using assms filterHealthy_frame[OF assms(3)] by (simp add: getProperty_Own)

lemma getBestRPC_no_healthy:
  assumes "initialized s" and "map_of (connections s) chain = Some pool"
    and "filterHealthy clk s pool 0 = ([], s1)" and "fcard (failedRPCs s) < length pool"
  shows "getBestRPC clk (Suc depth) s chain =
           (Some (Inl (mkError (''No healthy RPCs available for '' @ chain))), s1)"
  using assms filterHealthy_frame[OF assms(3)] by (simp add: getProperty_Own)

lemma getBestRPC_guard:
  "\<not> initialized s \<or> getProperty (connections s) chain = Missing \<Longrightarrow>
     getBestRPC clk (Suc depth) s chain =
       (Some (Inl (mkError (''RPC Manager not initialized for chain: '' @ chain))), s)"
  by auto

lemma getBestRPC_inherited:
  "initialized s \<Longrightarrow> getProperty (connections s) chain = Inherited \<Longrightarrow>
     getBestRPC clk (Suc depth) s chain =
       (Some (Inl (mkError ''connections.filter is not a function'')), s)"
  by simp

lemma getBestRPC_Inr_pool:
  "getBestRPC clk (Suc depth) s chain = (Some (Inr rpc), s') \<Longrightarrow>
     initialized s \<and> (\<exists>pool. map_of (connections s) chain = Some pool)"
  by (cases "getProperty (connections s) chain")
     (auto simp: getProperty_Own_iff split: if_splits)

lemma useSelected_result:
  "fst (useSelected clk s chain pool i) = connection (pool ! i)"
  by (simp add: useSelected_def dateNow_def Let_def)

lemma updateRequestCounter_frame:
  "connections (updateRequestCounter s u) = connections s"
  "failedRPCs (updateRequestCounter s u) = failedRPCs s"
  "initialized (updateRequestCounter s u) = initialized s"
  "rpcConfigs (updateRequestCounter s u) = rpcConfigs s"
  "ticks (updateRequestCounter s u) = ticks s"
  "requestCounters (updateRequestCounter s u) v =
     (if v = u then map_option (\<lambda>c. c\<lparr>count := count c + 1\<rparr>) (requestCounters s u)
      else requestCounters s v)"
  by (auto simp: updateRequestCounter_def split: option.splits)

lemma useSelected_state:
  "connections (snd (useSelected clk s chain pool i)) =
     AList.update chain (pool[i := (pool ! i)\<lparr>lastUsed := clk (ticks s),
        requestCount := requestCount (pool ! i) + 1\<rparr>]) (connections s)"
  "failedRPCs (snd (useSelected clk s chain pool i)) = failedRPCs s"
  "initialized (snd (useSelected clk s chain pool i)) = initialized s"
  "rpcConfigs (snd (useSelected clk s chain pool i)) = rpcConfigs s"
  "ticks (snd (useSelected clk s chain pool i)) = Suc (ticks s)"
  "requestCounters (snd (useSelected clk s chain pool i)) v =
     (if v = url (pool ! i) then map_option (\<lambda>c. c\<lparr>count := count c + 1\<rparr>) (requestCounters s v)
      else requestCounters s v)"
  by (auto simp: useSelected_def dateNow_def Let_def updateRequestCounter_frame)

lemma getBestRPC_selected_underCap:
  "getBestRPC clk depth s chain = (Some (Inr rpc), s') \<Longrightarrow>
     \<exists>pool i. map_of (connections s) chain = Some pool \<and> i < length pool \<and>
        rpc = connection (pool ! i) \<and> healthy (pool ! i) \<and>
        (\<forall>c'. requestCounters s' (url (pool ! i)) = Some c' \<longrightarrow>
            count c' \<le> max 1 (safeLimit (maxRequestsPerSecond (pool ! i))))"
proof (induction depth arbitrary: s)
  case 0
  then show ?case by simp
next
  case (Suc depth)
  from getBestRPC_Inr_pool[OF Suc.prems] obtain pool
    where init: "initialized s" and pool: "map_of (connections s) chain = Some pool" by blast
  obtain cs s1 where f: "filterHealthy clk s pool 0 = (cs, s1)"
    by (cases "filterHealthy clk s pool 0")
  note fr = filterHealthy_frame[OF f]
  show ?case
  proof (cases "cs = []")
    case True
    show ?thesis
    proof (cases "length pool \<le> fcard (failedRPCs s)")
      case le: True
      from f True have f': "filterHealthy clk s pool 0 = ([], s1)" by simp
      from getBestRPC_breaker[OF init pool f' le, of depth] Suc.prems
      have "getBestRPC clk depth (s1\<lparr>failedRPCs := {||}\<rparr>) chain = (Some (Inr rpc), s')" by simp
      from Suc.IH[OF this] fr pool show ?thesis by simp
    next
      case False
      from f True have f': "filterHealthy clk s pool 0 = ([], s1)" by simp
      from False have "fcard (failedRPCs s) < length pool" by simp
      from getBestRPC_no_healthy[OF init pool f' this, of depth] Suc.prems show ?thesis by simp
    qed
  next
    case False
    let ?i = "hd (sortCandidates pool cs)"
    from getBestRPC_selects[OF init pool f False, of depth] Suc.prems
    have rpc: "rpc = connection (pool ! ?i)" and s': "s' = snd (useSelected clk s1 chain pool ?i)"
      by (simp_all add: useSelected_result)
    have mem: "?i \<in> set cs" using False by (rule sortCandidates_hd_in)
    from filterHealthy_indices[OF f mem] have lt: "?i < length pool" by simp
    from filterHealthy_candidates[OF f mem]
    have h: "healthy (pool ! ?i)"
      and uc: "underCap s1 (url (pool ! ?i)) (safeLimit (maxRequestsPerSecond (pool ! ?i)))"
      by simp_all
    have "\<forall>c'. requestCounters s' (url (pool ! ?i)) = Some c' \<longrightarrow>
            count c' \<le> max 1 (safeLimit (maxRequestsPerSecond (pool ! ?i)))"
      using uc by (auto simp: s' useSelected_state underCap_def split: option.splits)
    with pool lt rpc h show ?thesis by blast
  qed
qed

lemma getBestRPC_breaker_once:
  assumes "initialized s" and "map_of (connections s) chain = Some pool"
    and "filterHealthy clk s pool 0 = ([], s1)"
    and "length pool \<le> fcard (failedRPCs s)"
  shows "pool \<noteq> [] \<Longrightarrow>
     getBestRPC clk (Suc (Suc depth)) s chain =
       (if fst (filterHealthy clk (s1\<lparr>failedRPCs := {||}\<rparr>) pool 0) = []
        then (Some (Inl (mkError (''No healthy RPCs available for '' @ chain))),
              snd (filterHealthy clk (s1\<lparr>failedRPCs := {||}\<rparr>) pool 0))
        else (Some (Inr (connection (pool !
                     hd (sortCandidates pool (fst (filterHealthy clk (s1\<lparr>failedRPCs := {||}\<rparr>) pool 0)))))),
              snd (useSelected clk (snd (filterHealthy clk (s1\<lparr>failedRPCs := {||}\<rparr>) pool 0))
                     chain pool
                     (hd (sortCandidates pool (fst (filterHealthy clk (s1\<lparr>failedRPCs := {||}\<rparr>) pool 0)))))))
     \<and> failedRPCs (snd (filterHealthy clk (s1\<lparr>failedRPCs := {||}\<rparr>) pool 0)) = {||}
     \<and> failedRPCs (snd (useSelected clk (snd (filterHealthy clk (s1\<lparr>failedRPCs := {||}\<rparr>) pool 0))
                     chain pool i)) = {||}"

proof -
  assume ne: "pool \<noteq> []"
  let ?t = "s1\<lparr>failedRPCs := {||}\<rparr>"
  obtain cs2 s2 where f2: "filterHealthy clk ?t pool 0 = (cs2, s2)"
    by (cases "filterHealthy clk ?t pool 0")
  note fr1 = filterHealthy_frame[OF assms(3)]
  note fr2 = filterHealthy_frame[OF f2]
  have init: "initialized ?t" using fr1 assms(1) by simp
  have pool: "map_of (connections ?t) chain = Some pool" using fr1 assms(2) by simp
  have step: "getBestRPC clk (Suc (Suc depth)) s chain = getBestRPC clk (Suc depth) ?t chain"
    by (rule getBestRPC_breaker[OF assms])
  have fe: "failedRPCs s2 = {||}" using fr2 by simp
  show ?thesis
  proof (cases "cs2 = []")
    case True
    with f2 have f2': "filterHealthy clk ?t pool 0 = ([], s2)" by simp
    have "fcard (failedRPCs ?t) < length pool" using ne by (simp add: fcard_fempty)
    from getBestRPC_no_healthy[OF init pool f2' this, of depth] step f2' fe
    show ?thesis by (simp add: useSelected_state)
  next
    case False
    from getBestRPC_selects[OF init pool f2 False, of depth] step f2 False fe
    show ?thesis by (simp add: useSelected_result useSelected_state)
  qed
qed

lemma map_update_same: "(map f xs)[i := f (xs ! i)] = map f xs"
proof (cases "i < length xs")
  case True
  then have "(map f xs)[i := f (xs ! i)] = (map f xs)[i := map f xs ! i]" by simp
  then show ?thesis by (simp only: list_update_id)
next
  case False
  then have "length (map f xs) \<le> i" by simp
  then show ?thesis by (rule list_update_beyond)
qed

lemma resetOnly_refl: "resetOnly a a"
  by (simp add: resetOnly_def split: option.splits)

lemma resetOnly_trans: "resetOnly a b \<Longrightarrow> resetOnly b c \<Longrightarrow> resetOnly a c"
  by (auto simp: resetOnly_def split: option.splits)

lemma canMakeRequest_resetOnly:
  "canMakeRequest clk s u m = (b, s') \<Longrightarrow> resetOnly (requestCounters s v) (requestCounters s' v)"
  by (auto simp: canMakeRequest_def dateNow_def resetOnly_def split: option.splits if_splits)

lemma isCandidate_resetOnly:
  "isCandidate clk s e = (b, s') \<Longrightarrow> resetOnly (requestCounters s v) (requestCounters s' v)"
  by (auto simp: isCandidate_def resetOnly_refl split: if_splits dest: canMakeRequest_resetOnly)

lemma filterHealthy_resetOnly:
  "filterHealthy clk s pool i = (cs, s') \<Longrightarrow> resetOnly (requestCounters s v) (requestCounters s' v)"
proof (induction pool arbitrary: s i cs s')
  case Nil
  then show ?case by (simp add: resetOnly_refl)
next
  case (Cons e pool)
  obtain b s1 where c: "isCandidate clk s e = (b, s1)" by (cases "isCandidate clk s e")
  obtain ks s2 where f: "filterHealthy clk s1 pool (Suc i) = (ks, s2)"
    by (cases "filterHealthy clk s1 pool (Suc i)")
  from Cons.prems c f have "s' = s2" by simp
  with Cons.IH[OF f] isCandidate_resetOnly[OF c, of v] show ?case
    by (auto intro: resetOnly_trans)
qed

text \<open>What a call of \<open>getBestRPC\<close> does to the pools and to the rate counters.\<close>

lemma getBestRPC_effect:
  "getBestRPC clk depth s chain = (r, s') \<Longrightarrow>
     ((\<forall>rpc. r \<noteq> Some (Inr rpc)) \<and> connections s' = connections s \<and>
      (\<forall>v. resetOnly (requestCounters s v) (requestCounters s' v)))
     \<or> (\<exists>pool j sm. map_of (connections s) chain = Some pool \<and> j < length pool \<and>
           r = Some (Inr (connection (pool ! j))) \<and>
           connections s' = AList.update chain
              (pool[j := (pool ! j)\<lparr>lastUsed := clk (ticks sm),
                                     requestCount := requestCount (pool ! j) + 1\<rparr>]) (connections s) \<and>
           (\<forall>v. resetOnly (requestCounters s v) (requestCounters sm v)) \<and>
           underCap sm (url (pool ! j)) (safeLimit (maxRequestsPerSecond (pool ! j))) \<and>
           (\<forall>v. requestCounters s' v =
              (if v = url (pool ! j)
               then map_option (\<lambda>c. c\<lparr>count := count c + 1\<rparr>) (requestCounters sm v)
               else requestCounters sm v)))"
proof (induction depth arbitrary: s)
  case 0
  then show ?case by (auto simp: resetOnly_refl)
next
  case (Suc depth)
  have trivial: ?case if "(\<forall>rpc. r \<noteq> Some (Inr rpc)) \<and> s' = s"
    using that by (simp add: resetOnly_refl)
  show ?case
  proof (cases "initialized s \<and> (\<exists>pool. map_of (connections s) chain = Some pool)")
    case False
    have "(\<forall>rpc. r \<noteq> Some (Inr rpc)) \<and> s' = s"
    proof (cases "getProperty (connections s) chain")
      case (Own p)
      with False have "\<not> initialized s" by (simp add: getProperty_Own_iff)
      with Suc.prems show ?thesis by auto
    next
      case Inherited
      with Suc.prems show ?thesis by (auto split: if_splits)
    next
      case Missing
      with Suc.prems show ?thesis by auto
    qed
    then show ?thesis by (rule trivial)
  next
    case True
    then have init: "initialized s" by simp
    from True obtain pool where pool: "map_of (connections s) chain = Some pool" by blast
    obtain cs s1 where f: "filterHealthy clk s pool 0 = (cs, s1)"
      by (cases "filterHealthy clk s pool 0")
    note fr = filterHealthy_frame[OF f]
    note ro = filterHealthy_resetOnly[OF f]
    show ?thesis
    proof (cases "cs = []")
      case True
      with f have f': "filterHealthy clk s pool 0 = ([], s1)" by simp
      show ?thesis
      proof (cases "length pool \<le> fcard (failedRPCs s)")
        case le: True
        let ?t = "s1\<lparr>failedRPCs := {||}\<rparr>"
        from getBestRPC_breaker[OF init pool f' le, of depth] Suc.prems
        have rec: "getBestRPC clk depth ?t chain = (r, s')" by simp
        have ct: "connections ?t = connections s" using fr by simp
        have rt: "resetOnly (requestCounters s v) (requestCounters ?t v)" for v
          using ro[of v] by simp
        from Suc.IH[OF rec] show ?thesis
        proof
          assume a: "(\<forall>rpc. r \<noteq> Some (Inr rpc)) \<and> connections s' = connections ?t \<and>
              (\<forall>v. resetOnly (requestCounters ?t v) (requestCounters s' v))"
          then have "\<forall>v. resetOnly (requestCounters s v) (requestCounters s' v)"
            using rt by (blast intro: resetOnly_trans)
          with a ct show ?thesis by simp
        next
          assume "\<exists>pool j sm. map_of (connections ?t) chain = Some pool \<and> j < length pool \<and>
           r = Some (Inr (connection (pool ! j))) \<and>
           connections s' = AList.update chain
              (pool[j := (pool ! j)\<lparr>lastUsed := clk (ticks sm),
                                     requestCount := requestCount (pool ! j) + 1\<rparr>]) (connections ?t) \<and>
           (\<forall>v. resetOnly (requestCounters ?t v) (requestCounters sm v)) \<and>
           underCap sm (url (pool ! j)) (safeLimit (maxRequestsPerSecond (pool ! j))) \<and>
           (\<forall>v. requestCounters s' v =
              (if v = url (pool ! j)
               then map_option (\<lambda>c. c\<lparr>count := count c + 1\<rparr>) (requestCounters sm v)
               else requestCounters sm v))"
          then obtain p j sm where b: "map_of (connections ?t) chain = Some p" "j < length p"
            "r = Some (Inr (connection (p ! j)))"
            "connections s' = AList.update chain
              (p[j := (p ! j)\<lparr>lastUsed := clk (ticks sm),
                                     requestCount := requestCount (p ! j) + 1\<rparr>]) (connections ?t)"
            "\<forall>v. resetOnly (requestCounters ?t v) (requestCounters sm v)"
            "underCap sm (url (p ! j)) (safeLimit (maxRequestsPerSecond (p ! j)))"
            "\<forall>v. requestCounters s' v =
              (if v = url (p ! j)
               then map_option (\<lambda>c. c\<lparr>count := count c + 1\<rparr>) (requestCounters sm v)
               else requestCounters sm v)"
            by blast
          have "\<forall>v. resetOnly (requestCounters s v) (requestCounters sm v)"
            using rt b(5) by (blast intro: resetOnly_trans)
          with b ct pool show ?thesis
            by (intro disjI2, rule_tac x = p in exI, rule_tac x = j in exI, rule_tac x = sm in exI)
               simp
        qed
      next
        case False
        then have "fcard (failedRPCs s) < length pool" by simp
        from getBestRPC_no_healthy[OF init pool f' this, of depth] Suc.prems fr ro
        show ?thesis by auto
      qed
    next
      case False
      let ?j = "hd (sortCandidates pool cs)"
      from getBestRPC_selects[OF init pool f False, of depth] Suc.prems
      have r: "r = Some (Inr (connection (pool ! ?j)))"
        and s': "s' = snd (useSelected clk s1 chain pool ?j)"
        by (simp_all add: useSelected_result)
      have mem: "?j \<in> set cs" using False by (rule sortCandidates_hd_in)
      from filterHealthy_indices[OF f mem] have lt: "?j < length pool" by simp
      from filterHealthy_candidates[OF f mem]
      have uc: "underCap s1 (url (pool ! ?j)) (safeLimit (maxRequestsPerSecond (pool ! ?j)))"
        by simp
      have conn: "connections s' = AList.update chain
              (pool[?j := (pool ! ?j)\<lparr>lastUsed := clk (ticks s1),
                                     requestCount := requestCount (pool ! ?j) + 1\<rparr>]) (connections s)"
        using fr by (simp add: s' useSelected_state)
      have cnt: "\<forall>v. requestCounters s' v =
              (if v = url (pool ! ?j)
               then map_option (\<lambda>c. c\<lparr>count := count c + 1\<rparr>) (requestCounters s1 v)
               else requestCounters s1 v)"
        by (simp add: s' useSelected_state)
      from pool lt r conn ro uc cnt show ?thesis
        by (intro disjI2, rule_tac x = pool in exI, rule_tac x = ?j in exI, rule_tac x = s1 in exI)
           simp
    qed
  qed
qed

lemma fixedPart_nth:
  assumes "map fixedPart p = map fixedPart q" and "k < length q"
  shows "length p = length q" "url (p ! k) = url (q ! k)"
    "maxRequestsPerSecond (p ! k) = maxRequestsPerSecond (q ! k)"
    "connection (p ! k) = connection (q ! k)"
proof -
  from assms(1) show len: "length p = length q" by (rule map_eq_imp_length_eq)
  from assms(1) have "map fixedPart p ! k = map fixedPart q ! k" by simp
  with assms(2) len have "fixedPart (p ! k) = fixedPart (q ! k)" by simp
  then show "url (p ! k) = url (q ! k)"
    "maxRequestsPerSecond (p ! k) = maxRequestsPerSecond (q ! k)"
    "connection (p ! k) = connection (q ! k)"
    by (simp_all add: fixedPart_def)
qed

lemma fixedPart_update:
  "map fixedPart (p[j := (p ! j)\<lparr>lastUsed := a, requestCount := b\<rparr>]) = map fixedPart p"
proof -
  have "fixedPart ((p ! j)\<lparr>lastUsed := a, requestCount := b\<rparr>) = fixedPart (p ! j)"
    by (simp add: fixedPart_def)
  then show ?thesis by (simp add: map_update map_update_same)
qed

lemma getBestRPC_window_step:
  assumes p: "map_of (connections t) chain = Some p" "map fixedPart p = map fixedPart pool"
    and i: "i < length pool" and dist: "distinct (map connection pool)"
    and c: "requestCounters t (url (pool ! i)) = Some c"
    and run: "getBestRPC clk depth t chain' = (r, t')"
  shows "\<exists>p' c'. map_of (connections t') chain = Some p' \<and> map fixedPart p' = map fixedPart pool \<and>
       requestCounters t' (url (pool ! i)) = Some c' \<and>
       ((chain' = chain \<and> r = Some (Inr (connection (pool ! i))) \<longrightarrow>
           (lastReset c' = lastReset c \<and> count c + 1 \<le> count c'
            \<or> lastReset c + 1000 \<le> lastReset c' \<and> 1 \<le> count c') \<and>
           count c' \<le> max 1 (safeLimit (maxRequestsPerSecond (pool ! i)))) \<and>
        (\<not> (chain' = chain \<and> r = Some (Inr (connection (pool ! i)))) \<longrightarrow>
           (lastReset c' = lastReset c \<and> count c \<le> count c'
            \<or> lastReset c + 1000 \<le> lastReset c' \<and> 0 \<le> count c')))"
proof -
  let ?u = "url (pool ! i)"
  from getBestRPC_effect[OF run] show ?thesis
  proof
    assume a: "(\<forall>rpc. r \<noteq> Some (Inr rpc)) \<and> connections t' = connections t \<and>
        (\<forall>v. resetOnly (requestCounters t v) (requestCounters t' v))"
    then have "resetOnly (requestCounters t ?u) (requestCounters t' ?u)" by blast
    with c obtain c' where c': "requestCounters t' ?u = Some c'"
      "c' = c \<or> (lastReset c + 1000 \<le> lastReset c' \<and> count c' = 0)"
      by (auto simp: resetOnly_def split: option.splits)
    from a p c' show ?thesis by auto
  next
    assume "\<exists>pool j sm. map_of (connections t) chain' = Some pool \<and> j < length pool \<and>
           r = Some (Inr (connection (pool ! j))) \<and>
           connections t' = AList.update chain'
              (pool[j := (pool ! j)\<lparr>lastUsed := clk (ticks sm),
                                     requestCount := requestCount (pool ! j) + 1\<rparr>]) (connections t) \<and>
           (\<forall>v. resetOnly (requestCounters t v) (requestCounters sm v)) \<and>
           underCap sm (url (pool ! j)) (safeLimit (maxRequestsPerSecond (pool ! j))) \<and>
           (\<forall>v. requestCounters t' v =
              (if v = url (pool ! j)
               then map_option (\<lambda>c. c\<lparr>count := count c + 1\<rparr>) (requestCounters sm v)
               else requestCounters sm v))"
    then obtain q j sm where b: "map_of (connections t) chain' = Some q" "j < length q"
      "r = Some (Inr (connection (q ! j)))"
      "connections t' = AList.update chain'
              (q[j := (q ! j)\<lparr>lastUsed := clk (ticks sm),
                                     requestCount := requestCount (q ! j) + 1\<rparr>]) (connections t)"
      "\<forall>v. resetOnly (requestCounters t v) (requestCounters sm v)"
      "underCap sm (url (q ! j)) (safeLimit (maxRequestsPerSecond (q ! j)))"
      "\<forall>v. requestCounters t' v =
              (if v = url (q ! j)
               then map_option (\<lambda>c. c\<lparr>count := count c + 1\<rparr>) (requestCounters sm v)
               else requestCounters sm v)"
      by blast
    from b(5) have "resetOnly (requestCounters t ?u) (requestCounters sm ?u)" by blast
    with c obtain cm where cm: "requestCounters sm ?u = Some cm"
      "cm = c \<or> (lastReset c + 1000 \<le> lastReset cm \<and> count cm = 0)"
      by (auto simp: resetOnly_def split: option.splits)
    obtain p' where p': "map_of (connections t') chain = Some p'"
      "map fixedPart p' = map fixedPart pool"
    proof (cases "chain' = chain")
      case True
      with b(1) p(1) have "q = p" by simp
      with b(4) True p(2) that show ?thesis by (simp add: update_conv' fixedPart_update)
    next
      case False
      with b(4) p that show ?thesis by (simp add: update_conv')
    qed
    show ?thesis
    proof (cases "chain' = chain \<and> r = Some (Inr (connection (pool ! i)))")
      case True
      with b(1) p(1) have qp: "q = p" by simp
      note fp = fixedPart_nth[OF p(2)]
      from b(2) qp fp(1)[OF i] have jl: "j < length pool" by simp
      from True b(3) qp fp(4)[OF jl] have "connection (pool ! j) = connection (pool ! i)" by simp
      then have "map connection pool ! j = map connection pool ! i" using jl i by simp
      with dist jl i have ji: "j = i" by (auto simp: distinct_conv_nth)
      have uj: "url (q ! j) = ?u" "maxRequestsPerSecond (q ! j) = maxRequestsPerSecond (pool ! i)"
        using fp(2,3)[OF i] qp ji by simp_all
      from b(7) uj cm have c': "requestCounters t' ?u = Some (cm\<lparr>count := count cm + 1\<rparr>)"
        by simp
      from b(6) uj cm have "count cm = 0 \<or> count cm < safeLimit (maxRequestsPerSecond (pool ! i))"
        by (simp add: underCap_def)
      with c' cm(2) p' True show ?thesis by auto
    next
      case False
      from b(7) cm obtain c' where c': "requestCounters t' ?u = Some c'"
        "c' = cm \<or> c' = cm\<lparr>count := count cm + 1\<rparr>"
        by (cases "?u = url (q ! j)") auto
      with cm(2) p' False show ?thesis by auto
    qed
  qed
qed

lemma windowSelections_Nil: "windowSelections chain rpc u w [] [] = 0"
  by (simp add: windowSelections_def)

lemma windowSelections_Cons:
  "windowSelections chain rpc u w (c # requests) ((r, t) # results) =
     (if c = chain \<and> r = Some (Inr rpc) \<and> map_option lastReset (requestCounters t u) = Some w
      then 1 else 0) + windowSelections chain rpc u w requests results"
  by (simp add: windowSelections_def)

lemma getBestRPC_calls_windows:
  assumes i: "i < length pool" and dist: "distinct (map connection pool)"
  shows "map_of (connections s) chain = Some p \<Longrightarrow> map fixedPart p = map fixedPart pool \<Longrightarrow>
     requestCounters s (url (pool ! i)) = Some c \<Longrightarrow>
     (\<forall>w. int (windowSelections chain (connection (pool ! i)) (url (pool ! i)) w requests
                  (getBestRPC_calls clk depth requests s))
            \<le> (if w = lastReset c
                then max 0 (max 1 (safeLimit (maxRequestsPerSecond (pool ! i))) - count c)
                else max 1 (safeLimit (maxRequestsPerSecond (pool ! i)))))
     \<and> (\<forall>w. w < lastReset c \<longrightarrow>
            windowSelections chain (connection (pool ! i)) (url (pool ! i)) w requests
              (getBestRPC_calls clk depth requests s) = 0)"
proof (induction requests arbitrary: s p c)
  case Nil
  have "(0 :: int) \<le> max 1 (safeLimit (maxRequestsPerSecond (pool ! i)))" by (simp add: max_def)
  then show ?case by (simp add: windowSelections_Nil)
next
  case (Cons chain' requests)
  let ?u = "url (pool ! i)" and ?rpc = "connection (pool ! i)"
  let ?L = "max 1 (safeLimit (maxRequestsPerSecond (pool ! i)))"
  obtain r t where run: "getBestRPC clk depth s chain' = (r, t)"
    by (cases "getBestRPC clk depth s chain'")
  let ?rest = "getBestRPC_calls clk depth requests t"
  let ?N = "\<lambda>w. windowSelections chain ?rpc ?u w requests ?rest"
  let ?sel = "chain' = chain \<and> r = Some (Inr ?rpc)"
  from getBestRPC_window_step[OF Cons.prems(1,2) i dist Cons.prems(3) run]
  obtain p' c' where p': "map_of (connections t) chain = Some p'"
      "map fixedPart p' = map fixedPart pool"
    and c': "requestCounters t ?u = Some c'"
    and yes: "?sel \<Longrightarrow> (lastReset c' = lastReset c \<and> count c + 1 \<le> count c'
            \<or> lastReset c + 1000 \<le> lastReset c' \<and> 1 \<le> count c') \<and> count c' \<le> ?L"
    and no: "\<not> ?sel \<Longrightarrow> (lastReset c' = lastReset c \<and> count c \<le> count c'
            \<or> lastReset c + 1000 \<le> lastReset c' \<and> 0 \<le> count c')"
    by blast
  from Cons.IH[OF p' c']
  have ih1: "int (?N w) \<le> (if w = lastReset c' then max 0 (?L - count c') else ?L)"
    and ih2: "w < lastReset c' \<Longrightarrow> ?N w = 0" for w
    by blast+
  have unfold: "windowSelections chain ?rpc ?u w (chain' # requests)
        (getBestRPC_calls clk depth (chain' # requests) s)
      = (if ?sel \<and> lastReset c' = w then 1 else 0) + ?N w" for w
    using run c' by (simp add: windowSelections_Cons)
  have mono: "lastReset c \<le> lastReset c'" using yes no by (cases ?sel) auto
  have Lpos: "0 \<le> ?L" by (simp add: max_def)
  have bound: "int ((if ?sel \<and> lastReset c' = w then 1 else 0) + ?N w)
      \<le> (if w = lastReset c then max 0 (?L - count c) else ?L)" for w
  proof (cases "w = lastReset c'")
    case True
    show ?thesis
    proof (cases ?sel)
      case sel: True
      from yes[OF sel] ih1[of w] True sel show ?thesis by (auto split: if_splits)
    next
      case nsel: False
      from no[OF nsel] ih1[of w] True nsel show ?thesis by (auto split: if_splits)
    qed
  next
    case False
    show ?thesis
    proof (cases "w = lastReset c")
      case wc: True
      with False mono have "w < lastReset c'" by simp
      from ih2[OF this] False Lpos show ?thesis by simp
    next
      case nwc: False
      with ih1[of w] False show ?thesis by simp
    qed
  qed
  have past: "(if ?sel \<and> lastReset c' = w then 1 else 0) + ?N w = 0" if "w < lastReset c" for w
  proof -
    from that mono have "w < lastReset c'" by simp
    from ih2[OF this] this show ?thesis by simp
  qed
  from bound past show ?case unfolding unfold by blast
qed

section \<open>Properties\<close>

subsection \<open>Selection for a chain without a pool\<close>

text \<open>
  C10. When the \<open>initialized\<close> flag is false, or the lookup of the chain in
  \<open>connections\<close> is \<open>undefined\<close>, \<open>getBestRPC\<close> throws the error
  "RPC Manager not initialized for chain: <chain>" and the whole state is what it was
  before the call (lemma \<open>getBestRPC_guard\<close>). A chain identifier that has no pool
  but is the name of a property that objects inherit passes the guard, though: on the
  initialized manager of the scenario, \<open>getBestRPC\<close> for "constructor", "toString" or
  "__proto__", none of which has a pool, throws the TypeError
  "connections.filter is not a function" and not the not-initialized error.
\<close>

theorem getBestRPC_inherited_name_passes_guard:
  "initialized exampleManager
   \<and> map_of (connections exampleManager) ''constructor'' = None
   \<and> map_of (connections exampleManager) ''toString'' = None
   \<and> map_of (connections exampleManager) ''__proto__'' = None
   \<and> getBestRPC clk (Suc depth) exampleManager ''constructor''
        = (Some (Inl (mkError ''connections.filter is not a function'')), exampleManager)
   \<and> getBestRPC clk (Suc depth) exampleManager ''toString''
        = (Some (Inl (mkError ''connections.filter is not a function'')), exampleManager)
   \<and> getBestRPC clk (Suc depth) exampleManager ''__proto__''
        = (Some (Inl (mkError ''connections.filter is not a function'')), exampleManager)
   \<and> mkError ''connections.filter is not a function''
        \<noteq> mkError (''RPC Manager not initialized for chain: '' @ chain)"
proof -
  have init: "initialized exampleManager" by (simp add: exampleManager_def)
  have none: "map_of (connections exampleManager) ''constructor'' = None"
    "map_of (connections exampleManager) ''toString'' = None"
    "map_of (connections exampleManager) ''__proto__'' = None"
    by (simp_all add: exampleManager_def)
  have inh: "getProperty (connections exampleManager) ''constructor'' = Inherited"
    "getProperty (connections exampleManager) ''toString'' = Inherited"
    "getProperty (connections exampleManager) ''__proto__'' = Inherited"
    by (simp_all add: getProperty_Inherited_iff none inheritedKeys_def)
  have ne: "mkError ''connections.filter is not a function''
        \<noteq> mkError (''RPC Manager not initialized for chain: '' @ chain)"
    by (simp add: mkError_def)
  from init none inh(1)[THEN getBestRPC_inherited[OF init]]
    inh(2)[THEN getBestRPC_inherited[OF init]] inh(3)[THEN getBestRPC_inherited[OF init]] ne
  show ?thesis by blast
qed

subsection \<open>Priority order of the selection\<close>

text \<open>
  C7. When the filter leaves a non-empty candidate list (endpoints that are healthy,
  not in the failed set and admitted by their rate counter), \<open>getBestRPC\<close> sorts the
  candidates by priority ascending, then by requestCount ascending, and returns the
  connection of the first: no candidate has a smaller priority, and none of the same
  priority a smaller requestCount. In particular, when the candidates are two endpoints
  with priorities p1 < p2 and equal requestCount, the p1 endpoint is selected. The
  selection increments the requestCount of that endpoint, sets its lastUsed to the
  clock reading, and increments the rate counter of its url (when the url has one, as
  every endpoint created by \<open>initialize\<close> has).
\<close>

theorem getBestRPC_priority_order:
  assumes "initialized s" and "map_of (connections s) chain = Some pool"
    and "filterHealthy clk s pool 0 = (cs, s1)" and "cs \<noteq> []"
  shows "\<exists>i s'. getBestRPC clk (Suc depth) s chain = (Some (Inr (connection (pool ! i))), s')
      \<and> i = hd (sortCandidates pool cs) \<and> i \<in> set cs
      \<and> set (sortCandidates pool cs) = set cs
      \<and> sorted_wrt (\<lambda>i j. priority (pool ! i) < priority (pool ! j) \<or>
            (priority (pool ! i) = priority (pool ! j) \<and>
             requestCount (pool ! i) \<le> requestCount (pool ! j))) (sortCandidates pool cs)
      \<and> (\<forall>j\<in>set cs. j < length pool \<and> healthy (pool ! j) \<and> url (pool ! j) |\<notin>| failedRPCs s
            \<and> (priority (pool ! i) < priority (pool ! j) \<or>
                (priority (pool ! i) = priority (pool ! j) \<and>
                 requestCount (pool ! i) \<le> requestCount (pool ! j))))
      \<and> (\<forall>a b. set cs = {a, b} \<and> priority (pool ! a) < priority (pool ! b) \<and>
                requestCount (pool ! a) = requestCount (pool ! b) \<longrightarrow> i = a)
      \<and> map_of (connections s') chain =
            Some (pool[i := (pool ! i)\<lparr>lastUsed := clk (ticks s1),
                                       requestCount := requestCount (pool ! i) + 1\<rparr>])
      \<and> requestCounters s' (url (pool ! i)) =
            map_option (\<lambda>c. c\<lparr>count := count c + 1\<rparr>) (requestCounters s1 (url (pool ! i)))"
proof -
  let ?i = "hd (sortCandidates pool cs)"
  let ?s' = "snd (useSelected clk s1 chain pool ?i)"
  have run: "getBestRPC clk (Suc depth) s chain = (Some (Inr (connection (pool ! ?i))), ?s')"
    using getBestRPC_selects[OF assms] by (simp add: useSelected_result)
  have mem: "?i \<in> set cs" using assms(4) by (rule sortCandidates_hd_in)
  have cand: "\<forall>j\<in>set cs. j < length pool \<and> healthy (pool ! j) \<and> url (pool ! j) |\<notin>| failedRPCs s
            \<and> (priority (pool ! ?i) < priority (pool ! j) \<or>
                (priority (pool ! ?i) = priority (pool ! j) \<and>
                 requestCount (pool ! ?i) \<le> requestCount (pool ! j)))"
    using filterHealthy_indices[OF assms(3)] filterHealthy_candidates[OF assms(3)]
      sortCandidates_hd_least[of _ cs pool]
    by (auto simp: compareConn_le_iff)
  have two: "\<forall>a b. set cs = {a, b} \<and> priority (pool ! a) < priority (pool ! b) \<and>
                requestCount (pool ! a) = requestCount (pool ! b) \<longrightarrow> ?i = a"
  proof (intro allI impI)
    fix a b
    assume h: "set cs = {a, b} \<and> priority (pool ! a) < priority (pool ! b) \<and>
                requestCount (pool ! a) = requestCount (pool ! b)"
    then have "a \<in> set cs" by simp
    from sortCandidates_hd_least[OF this, of pool]
    have "priority (pool ! ?i) \<le> priority (pool ! a)" by (auto simp: compareConn_le_iff)
    with h have "?i \<noteq> b" by auto
    with mem h show "?i = a" by auto
  qed
  have conns: "map_of (connections ?s') chain =
      Some (pool[?i := (pool ! ?i)\<lparr>lastUsed := clk (ticks s1),
                                   requestCount := requestCount (pool ! ?i) + 1\<rparr>])"
    by (simp add: useSelected_state update_conv')
  have cnt: "requestCounters ?s' (url (pool ! ?i)) =
      map_option (\<lambda>c. c\<lparr>count := count c + 1\<rparr>) (requestCounters s1 (url (pool ! ?i)))"
    by (simp add: useSelected_state)
  from run mem cand two conns cnt sortCandidates_set[of pool cs] sortCandidates_sorted[of pool cs]
  show ?thesis by blast
qed

theorem getBestRPC_priority_order_witness:
  "initialized reversedManager
   \<and> map_of (connections reversedManager) ''ethereum'' = Some [endpointB, endpointA]
   \<and> fst (filterHealthy (\<lambda>k. 0) reversedManager [endpointB, endpointA] 0) = [0, 1]
   \<and> priority ([endpointB, endpointA] ! 1) < priority ([endpointB, endpointA] ! 0)
   \<and> requestCount ([endpointB, endpointA] ! 1) = requestCount ([endpointB, endpointA] ! 0)
   \<and> fst (getBestRPC (\<lambda>k. 0) (Suc 0) reversedManager ''ethereum'')
        = Some (Inr (connection endpointA))"
proof -
  let ?pool = "[endpointB, endpointA]"
  have h1: "initialized reversedManager" by (simp add: reversedManager_def exampleManager_def)
  have h2: "map_of (connections reversedManager) ''ethereum'' = Some ?pool"
    by (simp add: reversedManager_def)
  have h3: "fst (filterHealthy (\<lambda>k. 0) reversedManager ?pool 0) = [0, 1]"
    by (simp add: reversedManager_def exampleManager_def endpointA_def endpointB_def
          isCandidate_def canMakeRequest_def dateNow_def safeLimit_5)
  then have h3': "filterHealthy (\<lambda>k. 0) reversedManager ?pool 0
      = ([0, 1], snd (filterHealthy (\<lambda>k. 0) reversedManager ?pool 0))"
    by (metis prod.collapse)
  have h4: "[0, 1] \<noteq> ([] :: nat list)" by simp
  have p: "priority (?pool ! 1) < priority (?pool ! 0)"
    and r: "requestCount (?pool ! 1) = requestCount (?pool ! 0)"
    by (simp_all add: endpointA_def endpointB_def)
  from getBestRPC_priority_order[OF h1 h2 h3' h4, of 0]
  obtain i s' where run: "getBestRPC (\<lambda>k. 0) (Suc 0) reversedManager ''ethereum''
        = (Some (Inr (connection (?pool ! i))), s')"
    and two: "\<forall>a b. set [0, 1 :: nat] = {a, b} \<and> priority (?pool ! a) < priority (?pool ! b) \<and>
                requestCount (?pool ! a) = requestCount (?pool ! b) \<longrightarrow> i = a"
    by blast
  have "set [0, 1 :: nat] = {1, 0}" by auto
  with two p r have "i = 1" by blast
  with run have "fst (getBestRPC (\<lambda>k. 0) (Suc 0) reversedManager ''ethereum'')
        = Some (Inr (connection endpointA))" by simp
  with h1 h2 h3 p r show ?thesis by simp
qed

subsection \<open>The rate counter is a fixed window\<close>

text \<open>
  C2, as it stands, fails: the counter of a url is reset when a second has passed
  since its last reset, so selections just before and just after a reset fall into
  one rolling second. In the scenario five calls in a row, with all clock readings
  between 997 and 1001, all select endpoint A, whose limit floor(5 * 0.8) is 4. And an
  endpoint is selectable at a reset whatever its count: with capacity 1, whose limit
  floor(1 * 0.8) is 0, endpoint A is selected by a call that resets its counter.
\<close>

theorem rate_cap_rolling_window_counterexample:
  "map fst (getBestRPC_calls (\<lambda>k. 997 + int (k div 3)) 1 (replicate 5 ''ethereum'') exampleManager)
     = [Some (Inr 1), Some (Inr 1), Some (Inr 1), Some (Inr 1), Some (Inr 1)]
   \<and> connection endpointA = 1
   \<and> safeLimit (maxRequestsPerSecond endpointA) = 4
   \<and> map (ticks \<circ> snd)
        (getBestRPC_calls (\<lambda>k. 997 + int (k div 3)) 1 (replicate 5 ''ethereum'') exampleManager)
        = [3, 6, 9, 12, 15]
   \<and> map (\<lambda>k. 997 + int (k div 3)) [0..<15]
        = [997, 997, 997, 998, 998, 998, 999, 999, 999, 1000, 1000, 1000, 1001, 1001, 1001]
   \<and> safeLimit 1 = 0
   \<and> fst (getBestRPC (\<lambda>k. 1000) 1
          (exampleManager\<lparr>connections :=
             [(''ethereum'', [endpointA\<lparr>maxRequestsPerSecond := 1\<rparr>])]\<rparr>) ''ethereum'')
        = Some (Inr 1)"
  by code_simp

text \<open>
  C2, amended. Let E be the endpoint at a position of a chain's pool whose connection
  handles are distinct, and let its url have a rate counter. The counter is a fixed
  window. When \<open>canMakeRequest\<close> is evaluated for the url 1000ms or more after the last
  reset, it resets the count to 0 and lastReset to the clock reading and admits E
  whatever the count was; otherwise it admits E exactly when count <
  floor(C * 0.8). In any sequence of calls of \<open>getBestRPC\<close>, for any chains, no
  more than max(1, floor(C * 0.8)) selections of E fall into any one window of the
  counter, and into the window that is open at the start no more than that number less
  the count at the start, and none when the count at the start exceeds that number
  (so when the count at the start is not negative, max(1, floor(C * 0.8)) bounds the
  selections in every window); no selection falls into a window before the one open
  at the start.
\<close>

theorem rate_counter_fixed_window:
  assumes "map_of (connections s) chain = Some pool" and "i < length pool"
    and "distinct (map connection pool)"
    and "requestCounters s (url (pool ! i)) = Some c"
  shows "canMakeRequest clk s (url (pool ! i)) (maxRequestsPerSecond (pool ! i)) =
        (if 1000 \<le> clk (ticks s) - lastReset c
         then (True, s\<lparr>ticks := Suc (ticks s),
                        requestCounters := (requestCounters s)
                          (url (pool ! i) \<mapsto> c\<lparr>count := 0, lastReset := clk (ticks s)\<rparr>)\<rparr>)
         else (count c < safeLimit (maxRequestsPerSecond (pool ! i)), s\<lparr>ticks := Suc (ticks s)\<rparr>))
     \<and> (\<forall>w. int (windowSelections chain (connection (pool ! i)) (url (pool ! i)) w requests
                  (getBestRPC_calls clk depth requests s))
            \<le> (if w = lastReset c
                then max 0 (max 1 (safeLimit (maxRequestsPerSecond (pool ! i))) - count c)
                else max 1 (safeLimit (maxRequestsPerSecond (pool ! i)))))
     \<and> (\<forall>w. w < lastReset c \<longrightarrow>
            windowSelections chain (connection (pool ! i)) (url (pool ! i)) w requests
              (getBestRPC_calls clk depth requests s) = 0)
     \<and> (0 \<le> count c \<longrightarrow>
          (\<forall>w. int (windowSelections chain (connection (pool ! i)) (url (pool ! i)) w requests
                  (getBestRPC_calls clk depth requests s))
            \<le> max 1 (safeLimit (maxRequestsPerSecond (pool ! i)))))"
proof -
  let ?L = "max 1 (safeLimit (maxRequestsPerSecond (pool ! i)))"
  let ?N = "\<lambda>w. windowSelections chain (connection (pool ! i)) (url (pool ! i)) w requests
                  (getBestRPC_calls clk depth requests s)"
  have a: "canMakeRequest clk s (url (pool ! i)) (maxRequestsPerSecond (pool ! i)) =
        (if 1000 \<le> clk (ticks s) - lastReset c
         then (True, s\<lparr>ticks := Suc (ticks s),
                        requestCounters := (requestCounters s)
                          (url (pool ! i) \<mapsto> c\<lparr>count := 0, lastReset := clk (ticks s)\<rparr>)\<rparr>)
         else (count c < safeLimit (maxRequestsPerSecond (pool ! i)), s\<lparr>ticks := Suc (ticks s)\<rparr>))"
    using assms(4) by (simp add: canMakeRequest_def dateNow_def)
  from getBestRPC_calls_windows[OF assms(2,3) assms(1) refl assms(4), where requests = requests
      and clk = clk and depth = depth]
  have b: "int (?N w) \<le> (if w = lastReset c then max 0 (?L - count c) else ?L)"
    and p: "w < lastReset c \<longrightarrow> ?N w = 0" for w
    by blast+
  have d: "int (?N w) \<le> ?L" if "0 \<le> count c" for w
    using b[of w] that by (auto split: if_splits)
  from a b p d show ?thesis by blast
qed

theorem rate_counter_fixed_window_witness:
  "map_of (connections exampleManager) ''ethereum'' = Some [endpointA, endpointB]
   \<and> (0 :: nat) < length [endpointA, endpointB]
   \<and> distinct (map connection [endpointA, endpointB])
   \<and> requestCounters exampleManager (url ([endpointA, endpointB] ! 0))
        = Some \<lparr>count = 0, lastReset = 0\<rparr>
   \<and> fst (canMakeRequest (\<lambda>k. 1000) exampleManager (url endpointA) 5)
   \<and> requestCounters (snd (canMakeRequest (\<lambda>k. 1000) exampleManager (url endpointA) 5))
        (url endpointA) = Some \<lparr>count = 0, lastReset = 1000\<rparr>
   \<and> map fst (getBestRPC_calls (\<lambda>k. 10) 1 (replicate 6 ''ethereum'') exampleManager)
        = [Some (Inr 1), Some (Inr 1), Some (Inr 1), Some (Inr 1), Some (Inr 2), Some (Inr 2)]
   \<and> windowSelections ''ethereum'' 1 (url endpointA) 0 (replicate 6 ''ethereum'')
        (getBestRPC_calls (\<lambda>k. 10) 1 (replicate 6 ''ethereum'') exampleManager) = 4
   \<and> int (windowSelections ''ethereum'' 1 (url endpointA) 0 (replicate 6 ''ethereum'')
        (getBestRPC_calls (\<lambda>k. 10) 1 (replicate 6 ''ethereum'') exampleManager))
        \<le> max 1 (safeLimit 5)
   \<and> safeLimit 5 = 4"
proof -
  let ?pool = "[endpointA, endpointB]"
  let ?c = "\<lparr>count = 0, lastReset = 0\<rparr>"
  have h1: "map_of (connections exampleManager) ''ethereum'' = Some ?pool"
    by (simp add: exampleManager_def)
  have h2: "(0 :: nat) < length ?pool" by simp
  have h3: "distinct (map connection ?pool)" by (simp add: endpointA_def endpointB_def)
  have h4: "requestCounters exampleManager (url (?pool ! 0)) = Some ?c"
    by (simp add: exampleManager_def endpointA_def endpointB_def endpointS_def)
  have ea: "?pool ! 0 = endpointA" "maxRequestsPerSecond endpointA = 5" "connection endpointA = 1"
    by (simp_all add: endpointA_def)
  have runs: "map fst (getBestRPC_calls (\<lambda>k. 10) 1 (replicate 6 ''ethereum'') exampleManager)
        = [Some (Inr 1), Some (Inr 1), Some (Inr 1), Some (Inr 1), Some (Inr 2), Some (Inr 2)]"
    "windowSelections ''ethereum'' 1 (url endpointA) 0 (replicate 6 ''ethereum'')
        (getBestRPC_calls (\<lambda>k. 10) 1 (replicate 6 ''ethereum'') exampleManager) = 4"
    by code_simp+
  note w1 = rate_counter_fixed_window[OF h1 h2 h3 h4, where clk = "\<lambda>k. 1000"
      and requests = "replicate 6 ''ethereum''" and depth = 1]
  note w2 = rate_counter_fixed_window[OF h1 h2 h3 h4, where clk = "\<lambda>k. 10"
      and requests = "replicate 6 ''ethereum''" and depth = 1]
  from w1 have "canMakeRequest (\<lambda>k. 1000) exampleManager (url endpointA) 5 =
     (True, exampleManager\<lparr>ticks := Suc (ticks exampleManager),
        requestCounters := (requestCounters exampleManager)
          (url endpointA \<mapsto> \<lparr>count = 0, lastReset = 1000\<rparr>)\<rparr>)"
    by (simp add: ea)
  then have a: "fst (canMakeRequest (\<lambda>k. 1000) exampleManager (url endpointA) 5)"
    and b: "requestCounters (snd (canMakeRequest (\<lambda>k. 1000) exampleManager (url endpointA) 5))
        (url endpointA) = Some \<lparr>count = 0, lastReset = 1000\<rparr>"
    by simp_all
  from w2 have "\<forall>w. int (windowSelections ''ethereum'' 1 (url endpointA) w (replicate 6 ''ethereum'')
        (getBestRPC_calls (\<lambda>k. 10) 1 (replicate 6 ''ethereum'') exampleManager))
        \<le> max 1 (safeLimit 5)"
    by (simp add: ea)
  then have bound: "int (windowSelections ''ethereum'' 1 (url endpointA) 0 (replicate 6 ''ethereum'')
        (getBestRPC_calls (\<lambda>k. 10) 1 (replicate 6 ''ethereum'') exampleManager))
        \<le> max 1 (safeLimit 5)"
    by blast
  from h1 h2 h3 h4 a b runs bound safeLimit_5 show ?thesis by blast
qed

subsection \<open>The circuit breaker\<close>

text \<open>
  C3. The claim holds on a pool that is not empty (\<open>getBestRPC_breaker_once\<close> among the
  lemmas). On an empty pool the condition of the circuit breaker, failed set size >=
  pool length, holds again after the failed set was cleared, so the retried selection
  clears and retries again, without end: whatever the bound on the recursion,
  \<open>getBestRPC\<close> does not return, and no-healthy-endpoint is never raised.
\<close>

theorem getBestRPC_empty_pool_never_returns:
  "fst (getBestRPC clk depth emptyPoolManager ''solana'') = None"
proof -
  have "initialized s \<Longrightarrow> map_of (connections s) ''solana'' = Some [] \<Longrightarrow>
          fst (getBestRPC clk depth s ''solana'') = None" for s
  proof (induction depth arbitrary: s)
    case 0
    then show ?case by simp
  next
    case (Suc depth)
    have f: "filterHealthy clk s [] 0 = ([], s)" by simp
    have "length ([] :: endpoint list) \<le> fcard (failedRPCs s)" by simp
    from getBestRPC_breaker[OF Suc.prems f this, of depth]
    have "getBestRPC clk (Suc depth) s ''solana''
            = getBestRPC clk depth (s\<lparr>failedRPCs := {||}\<rparr>) ''solana''" .
    moreover have "fst (getBestRPC clk depth (s\<lparr>failedRPCs := {||}\<rparr>) ''solana'') = None"
      using Suc.prems by (intro Suc.IH) simp_all
    ultimately show ?case by simp
  qed
  then show ?thesis by (simp add: emptyPoolManager_def exampleManager_def)
qed

text \<open>
  C9. The failed set is one set for all chains. When the filter for the requested
  chain leaves no candidate and the size of that one set is at least the length of the
  requested chain's pool, \<open>getBestRPC\<close> continues from the state in which the whole set
  is empty; on a pool that is not empty the call returns, and in the state it returns
  no url of any chain is marked failed.
\<close>

theorem circuit_breaker_clears_all_chains:
  assumes "initialized s" and "map_of (connections s) chain = Some pool"
    and "filterHealthy clk s pool 0 = ([], s1)"
    and "length pool \<le> fcard (failedRPCs s)"
  shows "getBestRPC clk (Suc depth) s chain
           = getBestRPC clk depth (s1\<lparr>failedRPCs := {||}\<rparr>) chain
     \<and> (pool \<noteq> [] \<longrightarrow>
          (\<exists>r s'. getBestRPC clk (Suc (Suc depth)) s chain = (Some r, s')
              \<and> failedRPCs s' = {||}))"
proof -
  from getBestRPC_breaker_once[OF assms] getBestRPC_breaker[OF assms]
  show ?thesis by (auto split: if_splits)
qed

theorem circuit_breaker_clears_all_chains_witness:
  "initialized cappedManager
   \<and> map_of (connections cappedManager) ''solana'' = Some [endpointS]
   \<and> fst (filterHealthy (\<lambda>k. 500) cappedManager [endpointS] 0) = []
   \<and> length [endpointS] \<le> fcard (failedRPCs cappedManager)
   \<and> failedRPCs cappedManager = {|url endpointA|}
   \<and> (\<exists>r s'. getBestRPC (\<lambda>k. 500) (Suc (Suc 0)) cappedManager ''solana'' = (Some r, s')
         \<and> failedRPCs s' = {||})"
proof -
  have h1: "initialized cappedManager" by (simp add: cappedManager_def exampleManager_def)
  have h2: "map_of (connections cappedManager) ''solana'' = Some [endpointS]"
    by (simp add: cappedManager_def exampleManager_def)
  have h3: "fst (filterHealthy (\<lambda>k. 500) cappedManager [endpointS] 0) = []"
    by (simp add: cappedManager_def exampleManager_def endpointA_def endpointB_def endpointS_def
          isCandidate_def canMakeRequest_def dateNow_def safeLimit_5)
  then have h3': "filterHealthy (\<lambda>k. 500) cappedManager [endpointS] 0
      = ([], snd (filterHealthy (\<lambda>k. 500) cappedManager [endpointS] 0))"
    by (metis prod.collapse)
  have h4: "length [endpointS] \<le> fcard (failedRPCs cappedManager)"
    by (simp add: cappedManager_def fcard_finsert_if)
  have h5: "failedRPCs cappedManager = {|url endpointA|}" by (simp add: cappedManager_def)
  from circuit_breaker_clears_all_chains[OF h1 h2 h3' h4, of 0]
  have "\<exists>r s'. getBestRPC (\<lambda>k. 500) (Suc (Suc 0)) cappedManager ''solana'' = (Some r, s')
         \<and> failedRPCs s' = {||}" by simp
  with h1 h2 h3 h4 h5 show ?thesis by blast
qed

subsection \<open>Removing an endpoint from the configuration\<close>

text \<open>Selection does not read the static configuration.\<close>

lemma canMakeRequest_rpcConfigs:
  "canMakeRequest clk (s\<lparr>rpcConfigs := x\<rparr>) u m =
     (fst (canMakeRequest clk s u m), (snd (canMakeRequest clk s u m))\<lparr>rpcConfigs := x\<rparr>)"
  by (simp add: canMakeRequest_def dateNow_def split: option.splits)

lemma isCandidate_rpcConfigs:
  "isCandidate clk (s\<lparr>rpcConfigs := x\<rparr>) e =
     (fst (isCandidate clk s e), (snd (isCandidate clk s e))\<lparr>rpcConfigs := x\<rparr>)"
  by (simp add: isCandidate_def canMakeRequest_rpcConfigs)

lemma filterHealthy_rpcConfigs:
  "filterHealthy clk (s\<lparr>rpcConfigs := x\<rparr>) pool i =
     (fst (filterHealthy clk s pool i), (snd (filterHealthy clk s pool i))\<lparr>rpcConfigs := x\<rparr>)"
  by (induction pool arbitrary: s i) (simp_all add: isCandidate_rpcConfigs case_prod_beta)

lemma useSelected_rpcConfigs:
  "useSelected clk (s\<lparr>rpcConfigs := x\<rparr>) chain pool i =
     (fst (useSelected clk s chain pool i), (snd (useSelected clk s chain pool i))\<lparr>rpcConfigs := x\<rparr>)"
  by (simp add: useSelected_def dateNow_def updateRequestCounter_def Let_def split: option.splits)

lemma getBestRPC_rpcConfigs:
  "getBestRPC clk depth (s\<lparr>rpcConfigs := x\<rparr>) chain =
     (fst (getBestRPC clk depth s chain), (snd (getBestRPC clk depth s chain))\<lparr>rpcConfigs := x\<rparr>)"
proof (induction depth arbitrary: s)
  case 0
  then show ?case by simp
next
  case (Suc depth)
  have comm: "t\<lparr>rpcConfigs := x, failedRPCs := {||}\<rparr> = t\<lparr>failedRPCs := {||}, rpcConfigs := x\<rparr>"
    for t :: manager
    by (cases t) simp
  show ?case
  proof (cases "getProperty (connections s) chain")
    case (Own pool)
    let ?t = "(snd (filterHealthy clk s pool 0))\<lparr>failedRPCs := {||}\<rparr>"
    show ?thesis
      using Suc.IH[of ?t] Own
      by (simp add: filterHealthy_rpcConfigs useSelected_rpcConfigs case_prod_beta comm)
  next
    case Inherited
    then show ?thesis by simp
  next
    case Missing
    then show ?thesis by simp
  qed
qed

text \<open>
  C8. \<open>removeRPC\<close> removes the descriptors of the url from the chain's entry in
  \<open>rpcConfigs\<close> (other chains' entries stay) and deletes the url from the failed set
  (both only when the chain has an entry in \<open>rpcConfigs\<close>); the live pools, the rate
  counters and the initialized flag are unchanged. It throws only when the chain is the
  name of an inherited property without an entry, and then changes nothing. Selection
  after the removal is selection on the unchanged pools: \<open>getBestRPC\<close> on the state
  after \<open>removeRPC\<close> returns what it returns on the state before with only the failed
  set updated, and when the url was not marked failed, a connection selected before
  the removal, that of the removed url's endpoint included, is selected after it just
  the same.
\<close>

theorem removeRPC_leaves_live_pool:
  "connections (snd (removeRPC s chain u)) = connections s
   \<and> requestCounters (snd (removeRPC s chain u)) = requestCounters s
   \<and> initialized (snd (removeRPC s chain u)) = initialized s
   \<and> map_of (rpcConfigs (snd (removeRPC s chain u))) chain
        = map_option (filter (\<lambda>rpc. url rpc \<noteq> u)) (map_of (rpcConfigs s) chain)
   \<and> (chain' \<noteq> chain \<longrightarrow>
        map_of (rpcConfigs (snd (removeRPC s chain u))) chain' = map_of (rpcConfigs s) chain')
   \<and> failedRPCs (snd (removeRPC s chain u))
        = (if map_of (rpcConfigs s) chain = None then failedRPCs s else failedRPCs s |-| {|u|})
   \<and> fst (removeRPC s chain u)
        = (if map_of (rpcConfigs s) chain = None \<and> chain \<in> set inheritedKeys
           then Some (mkError ''this.rpcConfigs[chain].filter is not a function'') else None)
   \<and> getBestRPC clk depth (snd (removeRPC s chain u)) chain''
        = (\<lambda>(r, t). (r, t\<lparr>rpcConfigs := rpcConfigs (snd (removeRPC s chain u))\<rparr>))
            (getBestRPC clk depth (s\<lparr>failedRPCs := failedRPCs (snd (removeRPC s chain u))\<rparr>) chain'')
   \<and> (u |\<notin>| failedRPCs s \<and> getBestRPC clk depth s chain'' = (Some (Inr rpc), s') \<longrightarrow>
        getBestRPC clk depth (snd (removeRPC s chain u)) chain''
          = (Some (Inr rpc), s'\<lparr>rpcConfigs := rpcConfigs (snd (removeRPC s chain u))\<rparr>))"
proof -
  let ?t = "snd (removeRPC s chain u)"
  have shape: "?t = s\<lparr>failedRPCs := failedRPCs ?t, rpcConfigs := rpcConfigs ?t\<rparr>"
    by (cases s) (simp add: removeRPC_def getProperty_def split: option.splits)
  have sel: "getBestRPC clk depth ?t chain''
        = (\<lambda>(r, t). (r, t\<lparr>rpcConfigs := rpcConfigs ?t\<rparr>))
            (getBestRPC clk depth (s\<lparr>failedRPCs := failedRPCs ?t\<rparr>) chain'')"
    by (subst shape) (simp add: getBestRPC_rpcConfigs case_prod_beta)
  have failed: "failedRPCs ?t
        = (if map_of (rpcConfigs s) chain = None then failedRPCs s else failedRPCs s |-| {|u|})"
    by (simp add: removeRPC_def getProperty_def split: option.splits)
  have same: "u |\<notin>| failedRPCs s \<Longrightarrow> s\<lparr>failedRPCs := failedRPCs ?t\<rparr> = s"
    by (simp add: failed)
  have still: "u |\<notin>| failedRPCs s \<and> getBestRPC clk depth s chain'' = (Some (Inr rpc), s') \<longrightarrow>
        getBestRPC clk depth ?t chain'' = (Some (Inr rpc), s'\<lparr>rpcConfigs := rpcConfigs ?t\<rparr>)"
    using sel same by auto
  have frame: "connections ?t = connections s" "requestCounters ?t = requestCounters s"
    "initialized ?t = initialized s"
    by (simp_all add: removeRPC_def getProperty_def split: option.splits)
  have cfg: "map_of (rpcConfigs ?t) chain
        = map_option (filter (\<lambda>rpc. url rpc \<noteq> u)) (map_of (rpcConfigs s) chain)"
    by (simp add: removeRPC_def getProperty_def update_conv' split: option.splits)
  have other: "chain' \<noteq> chain \<longrightarrow> map_of (rpcConfigs ?t) chain' = map_of (rpcConfigs s) chain'"
    by (simp add: removeRPC_def getProperty_def update_conv' split: option.splits)
  have thrown: "fst (removeRPC s chain u)
        = (if map_of (rpcConfigs s) chain = None \<and> chain \<in> set inheritedKeys
           then Some (mkError ''this.rpcConfigs[chain].filter is not a function'') else None)"
    by (simp add: removeRPC_def getProperty_def split: option.splits)
  from frame cfg other failed thrown sel still show ?thesis by blast
qed

theorem removeRPC_leaves_live_pool_witness:
  "url endpointA |\<notin>| failedRPCs exampleManager
   \<and> fst (getBestRPC (\<lambda>k. 0) 1 exampleManager ''ethereum'') = Some (Inr (connection endpointA))
   \<and> fst (removeRPC exampleManager ''ethereum'' (url endpointA)) = None
   \<and> map_of (rpcConfigs (snd (removeRPC exampleManager ''ethereum'' (url endpointA)))) ''ethereum''
        = Some [config.truncate endpointB]
   \<and> ''solana'' \<noteq> ''ethereum''
   \<and> map_of (rpcConfigs (snd (removeRPC exampleManager ''ethereum'' (url endpointA)))) ''solana''
        = Some [config.truncate endpointS]
   \<and> connections (snd (removeRPC exampleManager ''ethereum'' (url endpointA)))
        = connections exampleManager
   \<and> fst (getBestRPC (\<lambda>k. 0) 1 (snd (removeRPC exampleManager ''ethereum'' (url endpointA)))
           ''ethereum'')
        = Some (Inr (connection endpointA))"
proof -
  let ?s' = "snd (getBestRPC (\<lambda>k. 0) 1 exampleManager ''ethereum'')"
  let ?t = "snd (removeRPC exampleManager ''ethereum'' (url endpointA))"
  have h: "url endpointA |\<notin>| failedRPCs exampleManager" by (simp add: exampleManager_def)
  have r: "fst (getBestRPC (\<lambda>k. 0) 1 exampleManager ''ethereum'') = Some (Inr (connection endpointA))"
    by code_simp
  then have run: "getBestRPC (\<lambda>k. 0) 1 exampleManager ''ethereum''
        = (Some (Inr (connection endpointA)), ?s')"
    by (metis prod.collapse)
  have ne: "''solana'' \<noteq> ''ethereum''" by simp
  note w = removeRPC_leaves_live_pool[of exampleManager "''ethereum''" "url endpointA"
      "''solana''" "\<lambda>k. 0" 1 "''ethereum''" "connection endpointA" ?s']
  from w have cfg: "map_of (rpcConfigs ?t) ''ethereum'' = Some [config.truncate endpointB]"
    by (simp add: exampleManager_def endpointA_def endpointB_def config.truncate_def)
  from w ne have other: "map_of (rpcConfigs ?t) ''solana'' = Some [config.truncate endpointS]"
    by (simp add: exampleManager_def)
  from w have conns: "connections ?t = connections exampleManager"
    by blast
  from w have nothrow: "fst (removeRPC exampleManager ''ethereum'' (url endpointA)) = None"
    by (simp add: exampleManager_def)
  from w h run have "getBestRPC (\<lambda>k. 0) 1 ?t ''ethereum''
      = (Some (Inr (connection endpointA)), ?s'\<lparr>rpcConfigs := rpcConfigs ?t\<rparr>)"
    by blast
  with h r cfg ne other conns nothrow show ?thesis by simp
qed

subsection \<open>Hysteresis of the health monitor\<close>




lemma findIndex_Some: "findIndex P xs = Some i \<Longrightarrow> i < length xs \<and> P (xs ! i)"
proof (induction xs arbitrary: i)
  case Nil
  then show ?case by simp
next
  case (Cons x xs)
  then show ?case by (cases "P x") auto
qed

lemma findIndex_exists: "x \<in> set xs \<Longrightarrow> P x \<Longrightarrow> \<exists>i. findIndex P xs = Some i"
  by (induction xs) auto









section \<open>Lemmas on the retry executor\<close>

declare retryLoop.simps [simp del]

lemma useSelected_handles:
  "map_of (connections s) chain = Some pool \<Longrightarrow>
     handles (snd (useSelected clk s chain pool i)) chain = handles s chain"
  by (simp add: handles_def useSelected_state update_conv' map_update map_update_same)

lemma getBestRPC_handles:
  "handles (snd (getBestRPC clk depth s chain)) chain = handles s chain"
proof (induction depth arbitrary: s)
  case 0
  then show ?case by simp
next
  case (Suc depth)
  show ?case
  proof (cases "getProperty (connections s) chain")
    case Inherited
    then show ?thesis by simp
  next
    case Missing
    then show ?thesis by simp
  next
    case (Own pool)
    then have pool: "map_of (connections s) chain = Some pool" by (simp add: getProperty_Own_iff)
    show ?thesis
    proof (cases "initialized s")
      case False
      then show ?thesis by simp
    next
      case init: True
      obtain cs s1 where f: "filterHealthy clk s pool 0 = (cs, s1)"
        by (cases "filterHealthy clk s pool 0")
      note fr = filterHealthy_frame[OF f]
      have h1: "handles s1 chain = handles s chain" using fr by (simp add: handles_def)
      show ?thesis
      proof (cases "cs = []")
        case True
        with f have f': "filterHealthy clk s pool 0 = ([], s1)" by simp
        show ?thesis
        proof (cases "length pool \<le> fcard (failedRPCs s)")
          case le: True
          from getBestRPC_breaker[OF init pool f' le, of depth] Suc.IH[of "s1\<lparr>failedRPCs := {||}\<rparr>"] h1
          show ?thesis by (simp add: handles_def)
        next
          case False
          then have "fcard (failedRPCs s) < length pool" by simp
          from getBestRPC_no_healthy[OF init pool f' this, of depth] h1
          show ?thesis by simp
        qed
      next
        case False
        from pool fr have "map_of (connections s1) chain = Some pool" by simp
        from useSelected_handles[OF this] getBestRPC_selects[OF init pool f False, of depth] h1
        show ?thesis by simp
      qed
    qed
  qed
qed

lemma getBestRPC_Inr_handle:
  assumes "getBestRPC clk depth s chain = (Some (Inr rpc), s')"
  shows "\<exists>hs. handles s chain = Some hs \<and> rpc \<in> set hs"
proof -
  from getBestRPC_selected_underCap[OF assms] obtain pool i
    where "map_of (connections s) chain = Some pool" "i < length pool" "rpc = connection (pool ! i)"
    by blast
  then show ?thesis by (auto simp: handles_def)
qed

lemma findIndex_connection:
  "rpc \<in> set (map connection pool) \<Longrightarrow>
     \<exists>j. findIndex (\<lambda>c. connection c = rpc) pool = Some j"
  using findIndex_exists[of _ pool "\<lambda>c. connection c = rpc"] by auto

lemma resetRPCErrors_handles:
  "handles (snd (resetRPCErrors s chain rpc)) chain = handles s chain"
  by (auto simp: resetRPCErrors_def handles_def Let_def update_conv' map_update map_update_same
        getProperty_Own_iff split: option.splits property.splits)

lemma resetRPCErrors_no_throw:
  "handles s chain = Some hs \<Longrightarrow> fst (resetRPCErrors s chain rpc) = None"
  by (auto simp: resetRPCErrors_def handles_def getProperty_def Let_def split: option.splits)

lemma resetRPCErrors_resets:
  assumes pool: "map_of (connections s) chain = Some pool"
    and mem: "rpc \<in> set (map connection pool)"
    and dist: "distinct (map connection pool)"
  shows "\<exists>pool'. map_of (connections (snd (resetRPCErrors s chain rpc))) chain = Some pool' \<and>
      (\<exists>e\<in>set pool'. connection e = rpc) \<and>
      (\<forall>e\<in>set pool'. connection e = rpc \<longrightarrow>
          errorCount e = 0 \<and> healthy e \<and> url e |\<notin>| failedRPCs (snd (resetRPCErrors s chain rpc)))"
proof -
  from findIndex_connection[OF mem] obtain j
    where j: "findIndex (\<lambda>c. connection c = rpc) pool = Some j" by blast
  from findIndex_Some[OF j] have lt: "j < length pool" and cj: "connection (pool ! j) = rpc"
    by simp_all
  let ?e = "(pool ! j)\<lparr>errorCount := 0, healthy := True\<rparr>"
  let ?pool' = "pool[j := ?e]"
  have s': "snd (resetRPCErrors s chain rpc)
      = s\<lparr>connections := AList.update chain ?pool' (connections s),
           failedRPCs := failedRPCs s |-| {|url ?e|}\<rparr>"
    using pool j by (simp add: resetRPCErrors_def getProperty_Own Let_def)
  have p': "map_of (connections (snd (resetRPCErrors s chain rpc))) chain = Some ?pool'"
    by (simp add: s' update_conv')
  have ex: "\<exists>e\<in>set ?pool'. connection e = rpc"
    using lt cj by (auto simp: set_conv_nth intro!: exI[of _ j])
  have all: "errorCount e = 0 \<and> healthy e \<and> url e |\<notin>| failedRPCs (snd (resetRPCErrors s chain rpc))"
    if e: "e \<in> set ?pool'" and c: "connection e = rpc" for e
  proof -
    from e obtain k where k: "k < length pool" "e = ?pool' ! k"
      by (auto simp: set_conv_nth)
    have "k = j"
    proof (rule ccontr)
      assume "k \<noteq> j"
      with k have "e = pool ! k" by simp
      with c cj have "map connection pool ! k = map connection pool ! j" using k lt by simp
      with dist k lt \<open>k \<noteq> j\<close> show False by (auto simp: distinct_conv_nth)
    qed
    with k lt have "e = ?e" by simp
    then show ?thesis by (simp add: s')
  qed
  from p' ex all show ?thesis by blast
qed

lemma tryBlock_cases:
  obtains
    (selfail) e s2 where
      "\<forall>rpc. fst (getBestRPC clk depth s chain) \<noteq> Some (Inr rpc)"
      "s2 = env attempt AwaitSelection (snd (getBestRPC clk depth s chain))"
      "tryBlock clk depth env chain operation attempt s tr = (Inl e, s2, tr @ [SelectFailed e])"
  | (threw) rpc s1 e where "getBestRPC clk depth s chain = (Some (Inr rpc), s1)"
      "operation attempt rpc = Inl e"
      "tryBlock clk depth env chain operation attempt s tr
         = (Inl e, env attempt AwaitOperation (env attempt AwaitSelection s1),
            tr @ [Invoked rpc, Threw e])"
  | (resetfail) rpc s1 result e s4 where "getBestRPC clk depth s chain = (Some (Inr rpc), s1)"
      "operation attempt rpc = Inr result"
      "resetRPCErrors (env attempt AwaitOperation (env attempt AwaitSelection s1)) chain rpc
         = (Some e, s4)"
      "tryBlock clk depth env chain operation attempt s tr
         = (Inl e, s4, tr @ [Invoked rpc, ResetFailed e])"
  | (ok) rpc s1 result s4 where "getBestRPC clk depth s chain = (Some (Inr rpc), s1)"
      "operation attempt rpc = Inr result"
      "resetRPCErrors (env attempt AwaitOperation (env attempt AwaitSelection s1)) chain rpc
         = (None, s4)"
      "tryBlock clk depth env chain operation attempt s tr = (Inr result, s4, tr @ [Invoked rpc])"
proof -
  obtain sel s1 where g: "getBestRPC clk depth s chain = (sel, s1)"
    by (cases "getBestRPC clk depth s chain")
  show ?thesis
  proof (cases sel)
    case None
    with g show ?thesis using selfail by (simp add: tryBlock_def)
  next
    case (Some r)
    show ?thesis
    proof (cases r)
      case (Inl e)
      with g Some show ?thesis using selfail by (simp add: tryBlock_def)
    next
      case (Inr rpc)
      show ?thesis
      proof (cases "operation attempt rpc")
        case (Inl e)
        with g Some Inr show ?thesis using threw by (simp add: tryBlock_def)
      next
        case r: (Inr result)
        let ?s3 = "env attempt AwaitOperation (env attempt AwaitSelection s1)"
        obtain x s4 where rs: "resetRPCErrors ?s3 chain rpc = (x, s4)"
          by (cases "resetRPCErrors ?s3 chain rpc")
        show ?thesis
        proof (cases x)
          case None
          with g Some Inr r rs show ?thesis using ok by (simp add: tryBlock_def)
        next
          case (Some e)
          with g \<open>sel = Some r\<close> Inr r rs show ?thesis using resetfail by (simp add: tryBlock_def)
        qed
      qed
    qed
  qed
qed

lemma tryBlock_handles:
  assumes "\<forall>k w t. handles (env k w t) chain = handles t chain"
  shows "handles (fst (snd (tryBlock clk depth env chain operation attempt s tr))) chain
           = handles s chain"
proof (cases rule: tryBlock_cases[of clk depth s chain env attempt operation tr])
  case (selfail e s2)
  with assms getBestRPC_handles[of clk depth s chain] show ?thesis by simp
next
  case (threw rpc s1 e)
  with assms getBestRPC_handles[of clk depth s chain] show ?thesis by simp
next
  case (resetfail rpc s1 result e s4)
  with assms getBestRPC_handles[of clk depth s chain]
    resetRPCErrors_handles[of "env attempt AwaitOperation (env attempt AwaitSelection s1)" chain rpc]
  show ?thesis by simp
next
  case (ok rpc s1 result s4)
  with assms getBestRPC_handles[of clk depth s chain]
    resetRPCErrors_handles[of "env attempt AwaitOperation (env attempt AwaitSelection s1)" chain rpc]
  show ?thesis by simp
qed

lemma tryBlock_trace:
  "\<exists>ext. snd (snd (tryBlock clk depth env chain operation attempt s tr)) = tr @ ext"
  by (cases rule: tryBlock_cases[of clk depth s chain env attempt operation tr]) auto

lemma retryLoop_exit:
  "maxRetries < attempt \<Longrightarrow>
     retryLoop clk depth env chain operation maxRetries attempt lastError s tr = (Inl lastError, s, tr)"
  by (simp add: retryLoop.simps)

lemma retryLoop_success:
  "attempt \<le> maxRetries \<Longrightarrow>
   tryBlock clk depth env chain operation attempt s (tr @ [Attempt attempt]) = (Inr result, s1, tr1) \<Longrightarrow>
     retryLoop clk depth env chain operation maxRetries attempt lastError s tr = (Inr result, s1, tr1)"
  by (subst retryLoop.simps) simp

lemma retryLoop_caught:
  assumes "attempt \<le> maxRetries"
    and "tryBlock clk depth env chain operation attempt s (tr @ [Attempt attempt]) = (Inl error, s1, tr1)"
  shows "retryLoop clk depth env chain operation maxRetries attempt lastError s tr =
     (if catchThrows error attempt maxRetries then (Inl (Some error), s1, tr1)
      else retryLoop clk depth env chain operation maxRetries (attempt + 1) (Some error)
             (if attempt < maxRetries then env attempt AwaitSleep s1 else s1)
             (tr1 @ catchSleep error attempt maxRetries))"
  using assms by (subst retryLoop.simps) (simp add: catchSleep_def catchThrows_def)

lemma retryLoop_trace_prefix:
  "\<exists>ext. snd (snd (retryLoop clk depth env chain operation maxRetries attempt lastError s tr))
            = tr @ ext"
proof (induction "nat (maxRetries + 1 - attempt)" arbitrary: attempt lastError s tr)
  case 0
  then have "maxRetries < attempt" by simp
  from retryLoop_exit[OF this, of clk depth env chain operation lastError s tr]
  show ?case by simp
next
  case (Suc n)
  then have le: "attempt \<le> maxRetries" by simp
  let ?tr = "tr @ [Attempt attempt]"
  obtain r1 s1 tr1 where tb: "tryBlock clk depth env chain operation attempt s ?tr = (r1, s1, tr1)"
    by (cases "tryBlock clk depth env chain operation attempt s ?tr")
  from tryBlock_trace[of clk depth env chain operation attempt s ?tr] tb
  obtain ext1 where tr1: "tr1 = ?tr @ ext1" by auto
  show ?case
  proof (cases r1)
    case (Inr result)
    from retryLoop_success[OF le, of clk depth env chain operation s tr result s1 tr1 lastError]
      tb Inr tr1
    show ?thesis by auto
  next
    case (Inl error)
    with tb have tb': "tryBlock clk depth env chain operation attempt s ?tr = (Inl error, s1, tr1)"
      by simp
    show ?thesis
    proof (cases "catchThrows error attempt maxRetries")
      case True
      with retryLoop_caught[OF le tb', of lastError] tr1 show ?thesis by auto
    next
      case False
      have n: "n = nat (maxRetries + 1 - (attempt + 1))" using Suc.hyps(2) by simp
      from Suc.hyps(1)[OF n, of "Some error"
          "if attempt < maxRetries then env attempt AwaitSleep s1 else s1"
          "tr1 @ catchSleep error attempt maxRetries"]
      obtain ext2 where "snd (snd (retryLoop clk depth env chain operation maxRetries (attempt + 1)
          (Some error) (if attempt < maxRetries then env attempt AwaitSleep s1 else s1)
          (tr1 @ catchSleep error attempt maxRetries)))
          = (tr1 @ catchSleep error attempt maxRetries) @ ext2" by blast
      with retryLoop_caught[OF le tb', of lastError] False tr1 show ?thesis by auto
    qed
  qed
qed

lemma retryLoop_starts:
  assumes "attempt \<le> maxRetries"
  shows "\<exists>ext. snd (snd (retryLoop clk depth env chain operation maxRetries attempt lastError s tr))
            = tr @ [Attempt attempt] @ ext"
proof -
  let ?tr = "tr @ [Attempt attempt]"
  obtain r1 s1 tr1 where tb: "tryBlock clk depth env chain operation attempt s ?tr = (r1, s1, tr1)"
    by (cases "tryBlock clk depth env chain operation attempt s ?tr")
  from tryBlock_trace[of clk depth env chain operation attempt s ?tr] tb
  obtain ext1 where tr1: "tr1 = ?tr @ ext1" by auto
  show ?thesis
  proof (cases r1)
    case (Inr result)
    from retryLoop_success[OF assms, of clk depth env chain operation s tr result s1 tr1 lastError]
      tb Inr tr1
    show ?thesis by auto
  next
    case (Inl error)
    with tb have tb': "tryBlock clk depth env chain operation attempt s ?tr = (Inl error, s1, tr1)"
      by simp
    show ?thesis
    proof (cases "catchThrows error attempt maxRetries")
      case True
      with retryLoop_caught[OF assms tb', of lastError] tr1 show ?thesis by auto
    next
      case False
      from retryLoop_trace_prefix[of clk depth env chain operation maxRetries "attempt + 1"
          "Some error" "if attempt < maxRetries then env attempt AwaitSleep s1 else s1"
          "tr1 @ catchSleep error attempt maxRetries"]
      obtain ext2 where "snd (snd (retryLoop clk depth env chain operation maxRetries (attempt + 1)
          (Some error) (if attempt < maxRetries then env attempt AwaitSleep s1 else s1)
          (tr1 @ catchSleep error attempt maxRetries)))
          = (tr1 @ catchSleep error attempt maxRetries) @ ext2" by blast
      with retryLoop_caught[OF assms tb', of lastError] False tr1 show ?thesis by auto
    qed
  qed
qed

lemma isDigit_facts:
  assumes "isDigit c"
  shows "\<not> isWhiteSpace c" "c \<noteq> CHR ''-''" "c \<noteq> CHR ''+''" "c \<noteq> CHR ''x''" "c \<noteq> CHR ''X''"
    "isRadixDigit 10 c"
  using assms by (auto simp: isDigit_def isWhiteSpace_def isRadixDigit_def digitValue_def Let_def)

lemma parseInt_digits:
  assumes "ds \<noteq> []" and "\<forall>c\<in>set ds. isDigit c"
  shows "parseInt ds \<noteq> None"
proof -
  from assms obtain c cs where ds: "ds = c # cs" by (cases ds) auto
  with assms(2) have c: "isDigit c" and cs: "\<forall>x\<in>set cs. isDigit x" by simp_all
  have nox: "take 2 ds \<noteq> ''0x''" "take 2 ds \<noteq> ''0X''"
    using cs isDigit_facts(4,5) by (cases cs; auto simp: ds)+
  have tw: "takeWhile (isRadixDigit 10) ds = ds"
    using assms(2) isDigit_facts(6) by (simp add: takeWhile_eq_all_conv)
  have dw: "dropWhile isWhiteSpace ds = ds"
    using c isDigit_facts(1) by (simp add: ds)
  show ?thesis
    using nox tw dw isDigit_facts(2,3)[OF c] assms(1)
    by (simp add: parseInt_def Let_def ds)
qed

lemma matchDigits_Some:
  "matchDigits m = Some ds \<Longrightarrow> ds \<noteq> [] \<and> (\<forall>c\<in>set ds. isDigit c)"
  by (auto simp: matchDigits_def Let_def split: if_splits dest: set_takeWhileD)

lemma handleRateLimit_numeric: "retryAfter e = None \<Longrightarrow> handleRateLimit e \<noteq> None"
  using parseInt_digits matchDigits_Some
  by (auto simp: handleRateLimit_def Let_def split: option.splits)

lemma handleRateLimit_range: "handleRateLimit e = Some w \<Longrightarrow> 5000 \<le> w \<and> w \<le> 60000"
  by (auto simp: handleRateLimit_def Let_def)

lemma trace_append:
  "attempts (a @ b) = attempts a @ attempts b"
  "invocations (a @ b) = invocations a @ invocations b"
  "thrown (a @ b) = thrown a @ thrown b"
  "sleeps (a @ b) = sleeps a @ sleeps b"
  "selectionFailures (a @ b) = selectionFailures a @ selectionFailures b"
  by (simp_all add: attempts_def invocations_def thrown_def sleeps_def selectionFailures_def)

lemma trace_single:
  "attempts [ev] = (case ev of Attempt k \<Rightarrow> [k] | _ \<Rightarrow> [])"
  "invocations [ev] = (case ev of Invoked rpc \<Rightarrow> [rpc] | _ \<Rightarrow> [])"
  "thrown [ev] = (case ev of Threw e \<Rightarrow> [e] | _ \<Rightarrow> [])"
  "sleeps [ev] = (case ev of Slept ms \<Rightarrow> [ms] | _ \<Rightarrow> [])"
  "selectionFailures [ev] = (case ev of SelectFailed e \<Rightarrow> [e] | _ \<Rightarrow> [])"
  "attempts [] = []" "invocations [] = []" "thrown [] = []" "sleeps [] = []"
  "selectionFailures [] = []"
  by (simp_all add: attempts_def invocations_def thrown_def sleeps_def selectionFailures_def)

lemma trace_Cons:
  "attempts (ev # tr) = (case ev of Attempt k \<Rightarrow> [k] | _ \<Rightarrow> []) @ attempts tr"
  "invocations (ev # tr) = (case ev of Invoked rpc \<Rightarrow> [rpc] | _ \<Rightarrow> []) @ invocations tr"
  "thrown (ev # tr) = (case ev of Threw e \<Rightarrow> [e] | _ \<Rightarrow> []) @ thrown tr"
  "sleeps (ev # tr) = (case ev of Slept ms \<Rightarrow> [ms] | _ \<Rightarrow> []) @ sleeps tr"
  "selectionFailures (ev # tr) = (case ev of SelectFailed e \<Rightarrow> [e] | _ \<Rightarrow> []) @ selectionFailures tr"
  by (simp_all add: attempts_def invocations_def thrown_def sleeps_def selectionFailures_def)

lemma selectionFailures_mem: "SelectFailed e \<in> set tr \<Longrightarrow> selectionFailures tr \<noteq> []"
  by (induction tr) (auto simp: selectionFailures_def)

lemma catchSleep_last: "\<not> attempt < maxRetries \<Longrightarrow> catchSleep e attempt maxRetries = []"
  by (simp add: catchSleep_def)

lemma catchSleep_readings:
  "attempts (catchSleep e attempt maxRetries) = []"
  "invocations (catchSleep e attempt maxRetries) = []"
  "thrown (catchSleep e attempt maxRetries) = []"
  "selectionFailures (catchSleep e attempt maxRetries) = []"
  by (simp_all add: catchSleep_def trace_single)

lemma catch_rate_limit:
  "isRateLimit e \<Longrightarrow> attempt < maxRetries \<Longrightarrow>
     \<not> catchThrows e attempt maxRetries \<and>
     catchSleep e attempt maxRetries = [Slept (handleRateLimit e)]"
  by (simp add: catchSleep_def catchThrows_def)

lemma retryLoop_caught_trace:
  assumes "attempt \<le> maxRetries"
    and "tryBlock clk depth env chain operation attempt s (tr @ [Attempt attempt]) = (Inl error, s1, tr1)"
  shows "\<exists>ext. snd (snd (retryLoop clk depth env chain operation maxRetries attempt lastError s tr))
            = tr1 @ ext"
proof (cases "catchThrows error attempt maxRetries")
  case True
  with retryLoop_caught[OF assms, of lastError] show ?thesis by simp
next
  case False
  from retryLoop_trace_prefix[of clk depth env chain operation maxRetries "attempt + 1"
      "Some error" "if attempt < maxRetries then env attempt AwaitSleep s1 else s1"
      "tr1 @ catchSleep error attempt maxRetries"]
  obtain ext2 where "snd (snd (retryLoop clk depth env chain operation maxRetries (attempt + 1)
      (Some error) (if attempt < maxRetries then env attempt AwaitSleep s1 else s1)
      (tr1 @ catchSleep error attempt maxRetries)))
      = (tr1 @ catchSleep error attempt maxRetries) @ ext2" by blast
  with retryLoop_caught[OF assms, of lastError] False show ?thesis by simp
qed

lemma retryLoop_rate_limited:
  assumes H1: "\<forall>k rpc. \<exists>e. operation k rpc = Inl e \<and> isRateLimit e \<and> handleRateLimit e \<noteq> None"
  shows "retryLoop clk depth env chain operation maxRetries attempt lastError s tr = (r, s', tr') \<Longrightarrow>
     selectionFailures tr' = [] \<Longrightarrow> attempt \<le> maxRetries \<Longrightarrow>
     \<exists>ws rpcs rpc e. attempts tr' = attempts tr @ [attempt..maxRetries]
        \<and> invocations tr' = invocations tr @ rpcs \<and> length rpcs = nat (maxRetries + 1 - attempt)
        \<and> sleeps tr' = sleeps tr @ ws \<and> length ws = nat (maxRetries - attempt)
        \<and> (\<forall>w\<in>set ws. \<exists>ms. w = Some ms \<and> 5000 \<le> ms \<and> ms \<le> 60000)
        \<and> r = Inl (Some e) \<and> operation maxRetries rpc = Inl e \<and> isRateLimit e"
proof (induction "nat (maxRetries - attempt)" arbitrary: attempt lastError s tr)
  case 0
  then have eq: "attempt = maxRetries" by simp
  let ?tr = "tr @ [Attempt attempt]"
  have le: "attempt \<le> maxRetries" using eq by simp
  show ?case
  proof (cases rule: tryBlock_cases[of clk depth s chain env attempt operation ?tr])
    case (ok rpc s1 result s4)
    with H1 show ?thesis by (metis sum.distinct(1))
  next
    case (resetfail rpc s1 result e s4)
    with H1 show ?thesis by (metis sum.distinct(1))
  next
    case (selfail e s2)
    from retryLoop_caught_trace[OF le selfail(3), where lastError = lastError] "0.prems"(1)
    have "\<exists>ext. tr' = (?tr @ [SelectFailed e]) @ ext" by simp
    then have "SelectFailed e \<in> set tr'" by auto
    from selectionFailures_mem[OF this] "0.prems"(2) show ?thesis by simp
  next
    case (threw rpc s1 e)
    from H1 threw(2) have rl: "isRateLimit e" by (metis sum.inject(1))
    have cs: "catchSleep e attempt maxRetries = []" using eq by (simp add: catchSleep_last)
    let ?s3 = "env attempt AwaitOperation (env attempt AwaitSelection s1)"
    have "retryLoop clk depth env chain operation maxRetries attempt lastError s tr
        = (Inl (Some e), ?s3, ?tr @ [Invoked rpc, Threw e])"
      using retryLoop_caught[OF le threw(3), of lastError] cs
        retryLoop_exit[of maxRetries "attempt + 1" clk depth env chain operation "Some e" ?s3
          "?tr @ [Invoked rpc, Threw e]"] eq
      by (cases "catchThrows e attempt maxRetries") auto
    with "0.prems"(1) have r: "r = Inl (Some e)" and tr': "tr' = ?tr @ [Invoked rpc, Threw e]"
      by simp_all
    show ?thesis
      using r tr' threw(2) rl eq
      by (rule_tac x = "[]" in exI, rule_tac x = "[rpc]" in exI, rule_tac x = rpc in exI,
          rule_tac x = e in exI)
         (simp add: trace_append trace_single trace_Cons)
  qed
next
  case (Suc n)
  then have lt: "attempt < maxRetries" by simp
  then have le: "attempt \<le> maxRetries" by simp
  let ?tr = "tr @ [Attempt attempt]"
  show ?case
  proof (cases rule: tryBlock_cases[of clk depth s chain env attempt operation ?tr])
    case (ok rpc s1 result s4)
    with H1 show ?thesis by (metis sum.distinct(1))
  next
    case (resetfail rpc s1 result e s4)
    with H1 show ?thesis by (metis sum.distinct(1))
  next
    case (selfail e s2)
    from retryLoop_caught_trace[OF le selfail(3), where lastError = lastError] Suc.prems(1)
    have "\<exists>ext. tr' = (?tr @ [SelectFailed e]) @ ext" by simp
    then have "SelectFailed e \<in> set tr'" by auto
    from selectionFailures_mem[OF this] Suc.prems(2) show ?thesis by simp
  next
    case (threw rpc s1 e)
    from H1 threw(2) have rl: "isRateLimit e" and num: "handleRateLimit e \<noteq> None"
      by (metis sum.inject(1))+
    from num obtain ms where ms: "handleRateLimit e = Some ms" by auto
    note rng = handleRateLimit_range[OF ms]
    let ?s3 = "env attempt AwaitOperation (env attempt AwaitSelection s1)"
    let ?tr2 = "(?tr @ [Invoked rpc, Threw e]) @ [Slept (Some ms)]"
    from retryLoop_caught[OF le threw(3), of lastError] catch_rate_limit[OF rl lt] Suc.prems(1) ms lt
    have rec: "retryLoop clk depth env chain operation maxRetries (attempt + 1) (Some e)
        (env attempt AwaitSleep ?s3) ?tr2 = (r, s', tr')" by simp
    have n: "n = nat (maxRetries - (attempt + 1))" using Suc.hyps(2) by simp
    have le': "attempt + 1 \<le> maxRetries" using lt by simp
    from Suc.hyps(1)[OF n rec Suc.prems(2) le']
    obtain ws rpcs rpc' e' where
      a: "attempts tr' = attempts ?tr2 @ [attempt + 1..maxRetries]"
      and i: "invocations tr' = invocations ?tr2 @ rpcs"
        "length rpcs = nat (maxRetries + 1 - (attempt + 1))"
      and sl: "sleeps tr' = sleeps ?tr2 @ ws" "length ws = nat (maxRetries - (attempt + 1))"
        "\<forall>w\<in>set ws. \<exists>ms. w = Some ms \<and> 5000 \<le> ms \<and> ms \<le> 60000"
      and res: "r = Inl (Some e')" "operation maxRetries rpc' = Inl e'" "isRateLimit e'"
      by blast
    have up: "[attempt..maxRetries] = attempt # [attempt + 1..maxRetries]"
      using le by (simp add: upto_rec1)
    have ar: "Suc (nat (maxRetries - attempt)) = nat (maxRetries + 1 - attempt)"
      "Suc (nat (maxRetries - (attempt + 1))) = nat (maxRetries - attempt)"
      using lt by linarith+
    show ?thesis
      using a i sl res rng lt up ar
      by (rule_tac x = "Some ms # ws" in exI, rule_tac x = "rpc # rpcs" in exI,
          rule_tac x = rpc' in exI, rule_tac x = e' in exI)
         (simp add: trace_append trace_single trace_Cons)
  qed
qed

lemma sum_sleeps_bounds:
  "\<forall>w\<in>set ws. \<exists>ms. w = Some ms \<and> 5000 \<le> ms \<and> ms \<le> 60000 \<Longrightarrow>
     5000 * int (length ws) \<le> sum_list (map (\<lambda>ms. case ms of None \<Rightarrow> 0 | Some w \<Rightarrow> w) ws)
     \<and> sum_list (map (\<lambda>ms. case ms of None \<Rightarrow> 0 | Some w \<Rightarrow> w) ws) \<le> 60000 * int (length ws)"
  by (induction ws) auto

lemma catch_network:
  "\<not> isRateLimit e \<Longrightarrow> isNetworkError e \<Longrightarrow> attempt < maxRetries \<Longrightarrow>
     \<not> catchThrows e attempt maxRetries \<and>
     catchSleep e attempt maxRetries = [Slept (Some (1000 * attempt))]"
  by (simp add: catchSleep_def catchThrows_def)

lemma retryLoop_success_shape:
  assumes env: "\<forall>k w t. handles (env k w t) chain = handles t chain"
  shows "retryLoop clk depth env chain operation maxRetries attempt lastError s tr
           = (Inr result, s', tr') \<Longrightarrow>
     \<exists>k s3 rpc ext hs. attempt \<le> k \<and> k \<le> maxRetries \<and> handles s chain = Some hs \<and>
        handles s3 chain = Some hs \<and> rpc \<in> set hs \<and> operation k rpc = Inr result \<and>
        resetRPCErrors s3 chain rpc = (None, s') \<and> tr' = tr @ ext @ [Attempt k, Invoked rpc] \<and>
        attempts ext = [attempt..k - 1] \<and> length (thrown ext) = length (invocations ext)"
proof (induction "nat (maxRetries + 1 - attempt)" arbitrary: attempt lastError s tr)
  case 0
  then have "maxRetries < attempt" by simp
  from retryLoop_exit[OF this, of clk depth env chain operation lastError s tr] "0.prems"
  show ?case by simp
next
  case (Suc n)
  then have le: "attempt \<le> maxRetries" by simp
  let ?tr = "tr @ [Attempt attempt]"
  have n: "n = nat (maxRetries + 1 - (attempt + 1))" using Suc.hyps(2) by simp
  have later: ?case
    if tb: "tryBlock clk depth env chain operation attempt s ?tr = (Inl e, s1, ?tr @ body)"
      and body: "attempts body = []" "length (thrown body) = length (invocations body)"
    for e s1 body
  proof (cases "catchThrows e attempt maxRetries")
    case True
    with retryLoop_caught[OF le tb, of lastError] Suc.prems show ?thesis by simp
  next
    case False
    let ?s2 = "if attempt < maxRetries then env attempt AwaitSleep s1 else s1"
    let ?cs = "catchSleep e attempt maxRetries"
    from False retryLoop_caught[OF le tb, of lastError] Suc.prems
    have rec: "retryLoop clk depth env chain operation maxRetries (attempt + 1) (Some e) ?s2
        ((?tr @ body) @ ?cs) = (Inr result, s', tr')" by simp
    from tryBlock_handles[OF env, of clk depth operation attempt s ?tr] tb
    have "handles s1 chain = handles s chain" by simp
    with env have h2: "handles ?s2 chain = handles s chain" by simp
    from Suc.hyps(1)[OF n rec] obtain k s3 rpc ext hs where
      k: "attempt + 1 \<le> k" "k \<le> maxRetries"
      and hs: "handles ?s2 chain = Some hs" "handles s3 chain = Some hs" "rpc \<in> set hs"
      and op: "operation k rpc = Inr result" "resetRPCErrors s3 chain rpc = (None, s')"
      and tr': "tr' = ((?tr @ body) @ ?cs) @ ext @ [Attempt k, Invoked rpc]"
      and rd: "attempts ext = [attempt + 1..k - 1]" "length (thrown ext) = length (invocations ext)"
      by blast
    let ?ext = "[Attempt attempt] @ body @ ?cs @ ext"
    have up: "[attempt..k - 1] = attempt # [attempt + 1..k - 1]"
      using k by (simp add: upto_rec1)
    have a: "attempts ?ext = [attempt..k - 1]"
      using rd(1) body(1) up by (simp add: trace_append trace_Cons trace_single catchSleep_readings)
    have b: "length (thrown ?ext) = length (invocations ?ext)"
      using rd(2) body(2) by (simp add: trace_append trace_Cons trace_single catchSleep_readings)
    have c: "tr' = tr @ ?ext @ [Attempt k, Invoked rpc]" using tr' by simp
    from k hs h2 op a b c show ?thesis
      by (rule_tac x = k in exI, rule_tac x = s3 in exI, rule_tac x = rpc in exI,
          rule_tac x = ?ext in exI, rule_tac x = hs in exI) simp
  qed
  show ?case
  proof (cases rule: tryBlock_cases[of clk depth s chain env attempt operation ?tr])
    case (selfail e s2)
    from later[of e s2 "[SelectFailed e]"] selfail(3) show ?thesis
      by (simp add: trace_single)
  next
    case (threw rpc s1 e)
    from later[of e "env attempt AwaitOperation (env attempt AwaitSelection s1)"
        "[Invoked rpc, Threw e]"] threw(3)
    show ?thesis by (simp add: trace_Cons trace_single)
  next
    case (resetfail rpc s1 result' e s4)
    let ?s3 = "env attempt AwaitOperation (env attempt AwaitSelection s1)"
    from getBestRPC_Inr_handle[OF resetfail(1)] obtain hs
      where "handles s chain = Some hs" by blast
    with getBestRPC_handles[of clk depth s chain] resetfail(1) env
    have "handles ?s3 chain = Some hs" by simp
    from resetRPCErrors_no_throw[OF this, of rpc] resetfail(3) show ?thesis by simp
  next
    case (ok rpc s1 result' s4)
    let ?s3 = "env attempt AwaitOperation (env attempt AwaitSelection s1)"
    from getBestRPC_Inr_handle[OF ok(1)] obtain hs
      where hs: "handles s chain = Some hs" "rpc \<in> set hs" by blast
    with getBestRPC_handles[of clk depth s chain] ok(1) env
    have h3: "handles ?s3 chain = Some hs" by simp
    from retryLoop_success[OF le ok(4), of lastError] Suc.prems
    have "result' = result" "s' = s4" "tr' = ?tr @ [Invoked rpc]"
      by simp_all
    with ok(2,3) le hs h3 show ?thesis
      by (rule_tac x = attempt in exI, rule_tac x = ?s3 in exI, rule_tac x = rpc in exI,
          rule_tac x = "[]" in exI, rule_tac x = hs in exI) (simp add: trace_single)
  qed
qed

lemma monitorFailsA_handles:
  "handles (monitorFailsA k w t) ''ethereum'' = handles t ''ethereum''"
  by (auto simp: monitorFailsA_def handles_def update_conv' comp_def
        split: option.splits intro!: map_cong)

section \<open>Properties of the retry executor\<close>

subsection \<open>Exhaustion on rate-limit errors\<close>

text \<open>
  C1, as it stands, fails: on the last attempt the guard \<open>attempt < maxRetries\<close>
  keeps \<open>handleRateLimit\<close> from being called, so a run of maxRetries attempts sleeps
  maxRetries - 1 times. With maxRetries = 3 and an operation that always throws an HTTP
  429 error, three attempts are made and the two sleeps of 5000ms add up to 10000ms,
  less than 3 * 5000ms.
\<close>

theorem rate_limit_sleep_counterexample:
  "(\<lambda>(r, s', tr). (r, attempts tr, invocations tr, sleeps tr, totalSleep tr))
     (executeWithRetry (\<lambda>k. 0) 2 noInterference exampleManager ''ethereum''
        (alwaysThrows tooManyRequests) 3)
     = (Inl (Some tooManyRequests), [1, 2, 3], [1, 1, 1], [Some 5000, Some 5000], 10000)
   \<and> isRateLimit tooManyRequests
   \<and> (10000 :: int) < 3 * 5000"
  by code_simp

text \<open>
  C1, amended. Let maxRetries >= 1 and let the operation always throw a rate-limit
  error (code 429, or a message containing "429" or "rate limit") whose suggested wait
  is a number (\<open>handleRateLimit\<close> is not \<open>NaN\<close>; it is a number whenever the error has no
  retry-after header, lemma \<open>handleRateLimit_numeric\<close>). Then, whatever interferes
  with the manager meanwhile, \<open>executeWithRetry\<close> returns, and in a run in which
  endpoint selection succeeded at every attempt it makes exactly maxRetries attempts,
  numbered 1 to maxRetries, each calling the operation; it raises the error of the last
  call; it sleeps maxRetries - 1 times, once after each attempt but the last, each time
  between 5000ms and 60000ms; so the time slept in total is at least
  (maxRetries - 1) * 5000ms and at most (maxRetries - 1) * 60000ms.
\<close>

theorem executeWithRetry_rate_limit_exhaustion:
  assumes "1 \<le> maxRetries"
    and "\<forall>k rpc. \<exists>e. operation k rpc = Inl e \<and> isRateLimit e \<and> handleRateLimit e \<noteq> None"
  shows "\<exists>r s' tr.
      executeWithRetry clk depth env s chain operation maxRetries = (r, s', tr) \<and>
      (selectionFailures tr = [] \<longrightarrow>
         attempts tr = [1..maxRetries] \<and> length (invocations tr) = nat maxRetries \<and>
         (\<exists>rpc e. r = Inl (Some e) \<and> operation maxRetries rpc = Inl e \<and> isRateLimit e) \<and>
         length (sleeps tr) = nat (maxRetries - 1) \<and>
         (\<forall>w\<in>set (sleeps tr). \<exists>ms. w = Some ms \<and> 5000 \<le> ms \<and> ms \<le> 60000) \<and>
         (maxRetries - 1) * 5000 \<le> totalSleep tr \<and> totalSleep tr \<le> (maxRetries - 1) * 60000)"
proof -
  obtain r s' tr where run: "retryLoop clk depth env chain operation maxRetries 1 None s []
      = (r, s', tr)"
    by (cases "retryLoop clk depth env chain operation maxRetries 1 None s []")
  have "attempts tr = [1..maxRetries] \<and> length (invocations tr) = nat maxRetries \<and>
         (\<exists>rpc e. r = Inl (Some e) \<and> operation maxRetries rpc = Inl e \<and> isRateLimit e) \<and>
         length (sleeps tr) = nat (maxRetries - 1) \<and>
         (\<forall>w\<in>set (sleeps tr). \<exists>ms. w = Some ms \<and> 5000 \<le> ms \<and> ms \<le> 60000) \<and>
         (maxRetries - 1) * 5000 \<le> totalSleep tr \<and> totalSleep tr \<le> (maxRetries - 1) * 60000"
    if sf: "selectionFailures tr = []"
  proof -
    from retryLoop_rate_limited[OF assms(2) run sf assms(1)]
    obtain ws rpcs rpc e where a: "attempts tr = [1..maxRetries]"
      and i: "invocations tr = rpcs" "length rpcs = nat maxRetries"
      and sl: "sleeps tr = ws" "length ws = nat (maxRetries - 1)"
        "\<forall>w\<in>set ws. \<exists>ms. w = Some ms \<and> 5000 \<le> ms \<and> ms \<le> 60000"
      and res: "r = Inl (Some e)" "operation maxRetries rpc = Inl e" "isRateLimit e"
      by (auto simp: trace_single)
    from sum_sleeps_bounds[OF sl(3)] sl(1,2) assms(1)
    have "(maxRetries - 1) * 5000 \<le> totalSleep tr \<and> totalSleep tr \<le> (maxRetries - 1) * 60000"
      by (simp add: totalSleep_def)
    with a i sl res show ?thesis by auto
  qed
  with run show ?thesis by (auto simp: executeWithRetry_def)
qed

theorem executeWithRetry_rate_limit_exhaustion_witness:
  "(1 :: int) \<le> 3
   \<and> (\<forall>k rpc. \<exists>e. alwaysThrows tooManyRequests k rpc = Inl e \<and> isRateLimit e
          \<and> handleRateLimit e \<noteq> None)
   \<and> (\<exists>r s' tr. executeWithRetry (\<lambda>k. 0) 2 noInterference exampleManager ''ethereum''
                    (alwaysThrows tooManyRequests) 3 = (r, s', tr)
         \<and> selectionFailures tr = [] \<and> attempts tr = [1, 2, 3]
         \<and> length (sleeps tr) = 2 \<and> 10000 \<le> totalSleep tr)"
proof -
  let ?run = "executeWithRetry (\<lambda>k. 0) 2 noInterference exampleManager ''ethereum''
      (alwaysThrows tooManyRequests) 3"
  have h1: "(1 :: int) \<le> 3" by simp
  have e: "isRateLimit tooManyRequests \<and> handleRateLimit tooManyRequests \<noteq> None"
    by code_simp
  then have h2: "\<forall>k rpc. \<exists>e. alwaysThrows tooManyRequests k rpc = Inl e \<and> isRateLimit e
          \<and> handleRateLimit e \<noteq> None"
    by (simp add: alwaysThrows_def)
  have sf: "selectionFailures (snd (snd ?run)) = []"
    by code_simp
  from executeWithRetry_rate_limit_exhaustion[OF h1 h2, of "\<lambda>k. 0" 2 noInterference
      exampleManager "''ethereum''"]
  obtain r s' tr where run: "?run = (r, s', tr)"
    and imp: "selectionFailures tr = [] \<longrightarrow>
         attempts tr = [1..3] \<and> length (sleeps tr) = nat (3 - 1) \<and>
         (3 - 1) * 5000 \<le> totalSleep tr"
    by (auto simp: numeral_2_eq_2)
  from sf run have "selectionFailures tr = []" by simp
  with imp have "selectionFailures tr = [] \<and> attempts tr = [1, 2, 3]
         \<and> length (sleeps tr) = 2 \<and> 10000 \<le> totalSleep tr"
    by (simp add: upto_rec1)
  with run h1 h2 show ?thesis by blast
qed

subsection \<open>Validation errors\<close>

text \<open>
  C4, as it stands, fails: the \<open>catch\<close> block tests for a rate-limit error and for a
  network error before it tests for "Invalid" or "Not found", and on either it sleeps
  and continues while attempts remain. An operation that always throws
  "Invalid address: 0x4290f3c1", whose message contains "429", is called three times
  with maxRetries = 3, with two sleeps of 5000ms; one that always throws "Not found"
  with the code NETWORK_ERROR is called three times, with sleeps of 1000ms and 2000ms.
\<close>

theorem validation_retried_counterexample:
  "(\<lambda>(r, s', tr). (r, attempts tr, invocations tr, sleeps tr))
     (executeWithRetry (\<lambda>k. 0) 2 noInterference exampleManager ''ethereum''
        (alwaysThrows invalidAddress) 3)
     = (Inl (Some invalidAddress), [1, 2, 3], [1, 1, 1], [Some 5000, Some 5000])
   \<and> msgIncludes invalidAddress ''Invalid''
   \<and> message invalidAddress = Some ''Invalid address: 0x4290f3c1''
   \<and> (\<lambda>(r, s', tr). (r, attempts tr, invocations tr, sleeps tr))
     (executeWithRetry (\<lambda>k. 0) 2 noInterference exampleManager ''ethereum''
        (alwaysThrows notFoundNetwork) 3)
     = (Inl (Some notFoundNetwork), [1, 2, 3], [1, 1, 1], [Some 1000, Some 2000])
   \<and> msgIncludes notFoundNetwork ''Not found''"
  by code_simp

text \<open>
  C4, amended. Let maxRetries >= 1, let the first endpoint selection succeed and the
  operation throw on the first attempt an error whose message contains "Invalid" or
  "Not found". If that error is neither a rate-limit error nor a network error, or if
  maxRetries is 1, \<open>executeWithRetry\<close> makes exactly one attempt, raises that error,
  and does not sleep. If maxRetries > 1 and the error is also a rate-limit error, the
  first attempt is followed by the rate-limit wait (the argument \<open>handleRateLimit\<close>
  computes) and by a second attempt. If maxRetries > 1 and the error is not a
  rate-limit error but also a network error, the first attempt is followed by a sleep
  of 1000ms and by a second attempt.
\<close>

theorem executeWithRetry_validation_precedence:
  assumes "1 \<le> maxRetries"
    and "getBestRPC clk depth s chain = (Some (Inr rpc), s1)"
    and "operation 1 rpc = Inl error"
    and "isValidationError error"
  shows "(maxRetries = 1 \<or> (\<not> isRateLimit error \<and> \<not> isNetworkError error) \<longrightarrow>
            executeWithRetry clk depth env s chain operation maxRetries
              = (Inl (Some error), env 1 AwaitOperation (env 1 AwaitSelection s1),
                 [Attempt 1, Invoked rpc, Threw error]))
     \<and> (1 < maxRetries \<and> isRateLimit error \<longrightarrow>
          (\<exists>ext. snd (snd (executeWithRetry clk depth env s chain operation maxRetries))
             = [Attempt 1, Invoked rpc, Threw error, Slept (handleRateLimit error), Attempt 2] @ ext))
     \<and> (1 < maxRetries \<and> \<not> isRateLimit error \<and> isNetworkError error \<longrightarrow>
          (\<exists>ext. snd (snd (executeWithRetry clk depth env s chain operation maxRetries))
             = [Attempt 1, Invoked rpc, Threw error, Slept (Some 1000), Attempt 2] @ ext))"
proof -
  let ?s3 = "env 1 AwaitOperation (env 1 AwaitSelection s1)"
  let ?tr1 = "[Attempt 1, Invoked rpc, Threw error]"
  have tb: "tryBlock clk depth env chain operation 1 s ([] @ [Attempt 1]) = (Inl error, ?s3, ?tr1)"
    using assms(2,3) by (simp add: tryBlock_def)
  note caught = retryLoop_caught[OF assms(1) tb, of None]
  have a: "executeWithRetry clk depth env s chain operation maxRetries = (Inl (Some error), ?s3, ?tr1)"
    if "maxRetries = 1 \<or> (\<not> isRateLimit error \<and> \<not> isNetworkError error)"
  proof -
    have "catchThrows error 1 maxRetries" using assms(4) that by (auto simp: catchThrows_def)
    with caught show ?thesis by (simp add: executeWithRetry_def)
  qed
  have retried: "\<exists>ext. snd (snd (executeWithRetry clk depth env s chain operation maxRetries))
             = (?tr1 @ [Slept w]) @ [Attempt 2] @ ext"
    if lt: "1 < maxRetries" and nt: "\<not> catchThrows error 1 maxRetries"
      and cs: "catchSleep error 1 maxRetries = [Slept w]" for w
  proof -
    from lt have le2: "(1 :: int) + 1 \<le> maxRetries" by simp
    from retryLoop_starts[OF le2, of clk depth env chain operation "Some error"
        "env 1 AwaitSleep ?s3" "?tr1 @ [Slept w]"]
    obtain ext where "snd (snd (retryLoop clk depth env chain operation maxRetries (1 + 1)
        (Some error) (env 1 AwaitSleep ?s3) (?tr1 @ [Slept w])))
        = (?tr1 @ [Slept w]) @ [Attempt (1 + 1)] @ ext" by blast
    with caught nt cs lt show ?thesis by (auto simp: executeWithRetry_def)
  qed
  have b: "\<exists>ext. snd (snd (executeWithRetry clk depth env s chain operation maxRetries))
             = [Attempt 1, Invoked rpc, Threw error, Slept (handleRateLimit error), Attempt 2] @ ext"
    if "1 < maxRetries \<and> isRateLimit error"
    using retried[of "handleRateLimit error"] catch_rate_limit[of error 1 maxRetries] that by simp
  have c: "\<exists>ext. snd (snd (executeWithRetry clk depth env s chain operation maxRetries))
             = [Attempt 1, Invoked rpc, Threw error, Slept (Some 1000), Attempt 2] @ ext"
    if "1 < maxRetries \<and> \<not> isRateLimit error \<and> isNetworkError error"
    using retried[of "Some 1000"] catch_network[of error 1 maxRetries] that by simp
  from a b c show ?thesis by blast
qed

theorem executeWithRetry_validation_precedence_witness:
  "(1 :: int) \<le> 3
   \<and> fst (getBestRPC (\<lambda>k. 0) 2 exampleManager ''ethereum'') = Some (Inr 1)
   \<and> isValidationError (mkError ''Invalid address'')
   \<and> \<not> isRateLimit (mkError ''Invalid address'')
   \<and> \<not> isNetworkError (mkError ''Invalid address'')
   \<and> (\<lambda>(r, s', tr). (r, tr))
        (executeWithRetry (\<lambda>k. 0) 2 noInterference exampleManager ''ethereum''
           (alwaysThrows (mkError ''Invalid address'')) 3)
        = (Inl (Some (mkError ''Invalid address'')),
           [Attempt 1, Invoked 1, Threw (mkError ''Invalid address'')])
   \<and> isValidationError invalidAddress \<and> isRateLimit invalidAddress
   \<and> (\<exists>ext. snd (snd (executeWithRetry (\<lambda>k. 0) 2 noInterference exampleManager ''ethereum''
           (alwaysThrows invalidAddress) 3))
        = [Attempt 1, Invoked 1, Threw invalidAddress, Slept (Some 5000), Attempt 2] @ ext)
   \<and> isValidationError notFoundNetwork \<and> \<not> isRateLimit notFoundNetwork
   \<and> isNetworkError notFoundNetwork
   \<and> (\<exists>ext. snd (snd (executeWithRetry (\<lambda>k. 0) 2 noInterference exampleManager ''ethereum''
           (alwaysThrows notFoundNetwork) 3))
        = [Attempt 1, Invoked 1, Threw notFoundNetwork, Slept (Some 1000), Attempt 2] @ ext)"
proof -
  let ?e = "mkError ''Invalid address''"
  let ?s1 = "snd (getBestRPC (\<lambda>k. 0) 2 exampleManager ''ethereum'')"
  have h1: "(1 :: int) \<le> 3" and lt: "(1 :: int) < 3" by simp_all
  have sel: "fst (getBestRPC (\<lambda>k. 0) 2 exampleManager ''ethereum'') = Some (Inr 1)"
    by code_simp
  then have h2: "getBestRPC (\<lambda>k. 0) 2 exampleManager ''ethereum'' = (Some (Inr 1), ?s1)"
    by (metis prod.collapse)
  have h3: "alwaysThrows x 1 1 = Inl x" for x :: jserror by (simp add: alwaysThrows_def)
  have cls: "isValidationError ?e \<and> \<not> isRateLimit ?e \<and> \<not> isNetworkError ?e"
    by code_simp
  have cls2: "isValidationError invalidAddress \<and> isRateLimit invalidAddress
      \<and> handleRateLimit invalidAddress = Some 5000"
    by code_simp
  have cls3: "isValidationError notFoundNetwork \<and> \<not> isRateLimit notFoundNetwork
      \<and> isNetworkError notFoundNetwork"
    by code_simp
  note w1 = executeWithRetry_validation_precedence[where operation = "alwaysThrows ?e"
      and rpc = 1 and error = ?e and maxRetries = 3 and s = exampleManager
      and chain = "''ethereum''" and clk = "\<lambda>k. 0" and depth = 2 and ?s1.0 = ?s1
      and env = noInterference, OF h1 h2 h3]
  note w2 = executeWithRetry_validation_precedence[where operation = "alwaysThrows invalidAddress"
      and rpc = 1 and error = invalidAddress and maxRetries = 3 and s = exampleManager
      and chain = "''ethereum''" and clk = "\<lambda>k. 0" and depth = 2 and ?s1.0 = ?s1
      and env = noInterference, OF h1 h2 h3]
  note w3 = executeWithRetry_validation_precedence[where operation = "alwaysThrows notFoundNetwork"
      and rpc = 1 and error = notFoundNetwork and maxRetries = 3 and s = exampleManager
      and chain = "''ethereum''" and clk = "\<lambda>k. 0" and depth = 2 and ?s1.0 = ?s1
      and env = noInterference, OF h1 h2 h3]
  from w1 cls have r1: "(\<lambda>(r, s', tr). (r, tr))
        (executeWithRetry (\<lambda>k. 0) 2 noInterference exampleManager ''ethereum''
           (alwaysThrows ?e) 3)
        = (Inl (Some ?e), [Attempt 1, Invoked 1, Threw ?e])"
    by simp
  from w2 cls2 lt have r2: "\<exists>ext. snd (snd (executeWithRetry (\<lambda>k. 0) 2 noInterference
           exampleManager ''ethereum'' (alwaysThrows invalidAddress) 3))
        = [Attempt 1, Invoked 1, Threw invalidAddress, Slept (Some 5000), Attempt 2] @ ext"
    by simp
  from w3 cls3 lt have r3: "\<exists>ext. snd (snd (executeWithRetry (\<lambda>k. 0) 2 noInterference
           exampleManager ''ethereum'' (alwaysThrows notFoundNetwork) 3))
        = [Attempt 1, Invoked 1, Threw notFoundNetwork, Slept (Some 1000), Attempt 2] @ ext"
    by simp
  from h1 sel cls cls2 cls3 r1 r2 r3 show ?thesis by blast
qed

subsection \<open>Success resets the error state\<close>

text \<open>
  C6. Let the connection handles of the chain's pool be distinct objects, and let the
  interference, whatever else it does to the manager while the run is suspended, leave
  the pool of the chain holding the same connections. When \<open>executeWithRetry\<close> returns
  a result, it is the result of the last call of the operation, made in the k-th
  attempt, k <= maxRetries; the run ends with that call, so nothing is attempted and
  nothing is slept after it; the attempts before it are numbered 1 to k - 1 and each
  call of the operation before it threw. In the state in which the run returns, the
  endpoint of the chain's pool whose connection that call received has errorCount 0
  and healthy true, and its url is not in the failed set, whatever the interference did
  to them while the operation was awaited.
\<close>

theorem executeWithRetry_success_resets:
  assumes "executeWithRetry clk depth env s chain operation maxRetries = (Inr result, s', tr)"
    and "map_of (connections s) chain = Some pool"
    and "distinct (map connection pool)"
    and "\<forall>k w t. handles (env k w t) chain = handles t chain"
  shows "\<exists>rpc k tr0. tr = tr0 @ [Attempt k, Invoked rpc] \<and> operation k rpc = Inr result \<and>
      k \<le> maxRetries \<and> attempts tr0 = [1..k - 1] \<and>
      length (thrown tr0) = length (invocations tr0) \<and>
      (\<exists>pool'. map_of (connections s') chain = Some pool' \<and>
         (\<exists>e\<in>set pool'. connection e = rpc) \<and>
         (\<forall>e\<in>set pool'. connection e = rpc \<longrightarrow>
            errorCount e = 0 \<and> healthy e \<and> url e |\<notin>| failedRPCs s'))"
proof -
  from retryLoop_success_shape[OF assms(4) assms(1)[unfolded executeWithRetry_def]]
  obtain k s3 rpc ext hs where k: "k \<le> maxRetries"
    and hs: "handles s chain = Some hs" "handles s3 chain = Some hs" "rpc \<in> set hs"
    and op: "operation k rpc = Inr result"
    and rs: "resetRPCErrors s3 chain rpc = (None, s')"
    and tr: "tr = [] @ ext @ [Attempt k, Invoked rpc]"
    and rd: "attempts ext = [1..k - 1]" "length (thrown ext) = length (invocations ext)"
    by blast
  from hs(1) assms(2) have hsp: "hs = map connection pool" by (simp add: handles_def)
  from hs(2) obtain pool3 where p3: "map_of (connections s3) chain = Some pool3"
    and h3: "map connection pool3 = hs"
    by (auto simp: handles_def)
  have mem: "rpc \<in> set (map connection pool3)" using hs(3) h3 by simp
  have dist: "distinct (map connection pool3)" using assms(3) h3 hsp by simp
  from rs have s': "s' = snd (resetRPCErrors s3 chain rpc)" by simp
  from resetRPCErrors_resets[OF p3 mem dist] op tr k rd show ?thesis unfolding s' by auto
qed

theorem executeWithRetry_success_resets_witness:
  "map_of (connections wornManager) ''ethereum'' = Some [endpointA\<lparr>errorCount := 4\<rparr>, endpointB]
   \<and> distinct (map connection [endpointA\<lparr>errorCount := 4\<rparr>, endpointB])
   \<and> (\<forall>k w t. handles (monitorFailsA k w t) ''ethereum'' = handles t ''ethereum'')
   \<and> (\<lambda>(r, s', tr). (r, tr))
        (executeWithRetry (\<lambda>k. 0) 2 monitorFailsA wornManager ''ethereum'' succeedsSecond 3)
        = (Inr 42, [Attempt 1, Invoked 1, Threw (mkError ''socket hang up''), Slept (Some 500),
                    Attempt 2, Invoked 1])
   \<and> \<not> healthy (hd (the (map_of (connections
          (monitorFailsA 2 AwaitOperation wornManager)) ''ethereum'')))
   \<and> url endpointA |\<in>| failedRPCs (monitorFailsA 2 AwaitOperation wornManager)
   \<and> (\<exists>pool'. map_of (connections (fst (snd
          (executeWithRetry (\<lambda>k. 0) 2 monitorFailsA wornManager ''ethereum'' succeedsSecond 3))))
            ''ethereum'' = Some pool'
         \<and> (\<exists>e\<in>set pool'. connection e = 1 \<and> errorCount e = 0 \<and> healthy e
               \<and> url e |\<notin>| failedRPCs (fst (snd
          (executeWithRetry (\<lambda>k. 0) 2 monitorFailsA wornManager ''ethereum'' succeedsSecond 3)))))"
proof -
  let ?pool = "[endpointA\<lparr>errorCount := 4\<rparr>, endpointB]"
  let ?run = "executeWithRetry (\<lambda>k. 0) 2 monitorFailsA wornManager ''ethereum'' succeedsSecond 3"
  have h2: "map_of (connections wornManager) ''ethereum'' = Some ?pool"
    by (simp add: wornManager_def)
  have h3: "distinct (map connection ?pool)" by (simp add: endpointA_def endpointB_def)
  have h4: "\<forall>k w t. handles (monitorFailsA k w t) ''ethereum'' = handles t ''ethereum''"
    by (simp add: monitorFailsA_handles)
  have ev: "(\<lambda>(r, s', tr). (r, tr)) ?run
        = (Inr 42, [Attempt 1, Invoked 1, Threw (mkError ''socket hang up''), Slept (Some 500),
                    Attempt 2, Invoked 1])"
    by code_simp
  have marks: "\<not> healthy (hd (the (map_of (connections
          (monitorFailsA 2 AwaitOperation wornManager)) ''ethereum'')))"
    "url endpointA |\<in>| failedRPCs (monitorFailsA 2 AwaitOperation wornManager)"
    by code_simp+
  from ev have h1: "?run = (Inr 42, fst (snd ?run),
      [Attempt 1, Invoked 1, Threw (mkError ''socket hang up''), Slept (Some 500),
       Attempt 2, Invoked 1])"
    by (cases ?run) auto
  from executeWithRetry_success_resets[OF h1 h2 h3 h4]
  obtain pool' where "map_of (connections (fst (snd ?run))) ''ethereum'' = Some pool'"
    "\<exists>e\<in>set pool'. connection e = 1" 
    "\<forall>e\<in>set pool'. connection e = 1 \<longrightarrow> errorCount e = 0 \<and> healthy e
        \<and> url e |\<notin>| failedRPCs (fst (snd ?run))"
    by auto
  then have "\<exists>pool'. map_of (connections (fst (snd ?run))) ''ethereum'' = Some pool'
         \<and> (\<exists>e\<in>set pool'. connection e = 1 \<and> errorCount e = 0 \<and> healthy e
               \<and> url e |\<notin>| failedRPCs (fst (snd ?run)))"
    by auto
  with h2 h3 h4 ev marks show ?thesis by blast
qed

end
